theory Spec2Isabelle
  imports Main "HOL-Library.Sublist" "HOL-Library.Word"
begin

section \<open>Python strings\<close>

text \<open>
  Python \<open>str\<close> values are modelled as \<open>string\<close>: a list of characters with code points
  0..255 (the Latin-1 repertoire), so \<open>length\<close> counts code points as Python's \<open>len\<close> does on
  such texts.
\<close>

definition py_isspace :: "char \<Rightarrow> bool" where
  \<comment> \<open>\<open>str.isspace\<close> and the regex class \<open>\s\<close> on code points below 256: 9..13, 28..32,
      133 and 160.\<close>
  "py_isspace c \<longleftrightarrow>
     c \<in> set [CHR 0x09, CHR 0x0A, CHR 0x0B, CHR 0x0C, CHR 0x0D, CHR 0x1C, CHR 0x1D,
              CHR 0x1E, CHR 0x1F, CHR 0x20, CHR 0x85, CHR 0xA0]"

definition py_strip_chars :: "(char \<Rightarrow> bool) \<Rightarrow> string \<Rightarrow> string" where
  \<comment> \<open>\<open>s.strip(chars)\<close>: drop the characters of the class from both ends.\<close>
  "py_strip_chars P s = rev (dropWhile P (rev (dropWhile P s)))"

definition py_strip :: "string \<Rightarrow> string" where
  \<comment> \<open>\<open>s.strip()\<close>\<close>
  "py_strip s = py_strip_chars py_isspace s"

definition py_slice_to :: "int \<Rightarrow> 'a list \<Rightarrow> 'a list" where
  \<comment> \<open>\<open>xs[:k]\<close>; a negative \<open>k\<close> counts from the end.\<close>
  "py_slice_to k xs =
     (if 0 \<le> k then take (nat k) xs else take (length xs - nat (- k)) xs)"

definition py_slice :: "nat \<Rightarrow> nat \<Rightarrow> 'a list \<Rightarrow> 'a list" where
  \<comment> \<open>\<open>xs[i:j]\<close> for offsets \<open>i, j \<ge> 0\<close>: empty when \<open>j \<le> i\<close>, clipped at the end.\<close>
  "py_slice i j xs = take (j - i) (drop i xs)"

definition rsplit1_head :: "char \<Rightarrow> string \<Rightarrow> string" where
  \<comment> \<open>\<open>s.rsplit(c, 1)[0]\<close>: the part before the last \<open>c\<close>, or all of \<open>s\<close> without a \<open>c\<close>.\<close>
  "rsplit1_head c s =
     (if c \<in> set s then rev (tl (dropWhile (\<lambda>x. x \<noteq> c) (rev s))) else s)"

section \<open>Harvester: \<open>sanitize_filename\<close>\<close>

definition illegal_char :: "char \<Rightarrow> bool" where
  \<comment> \<open>the class \<open>[<>:"/\\|?*]\<close>\<close>
  "illegal_char c \<longleftrightarrow>
     c \<in> set [CHR ''<'', CHR ''>'', CHR '':'', CHR 0x22, CHR ''/'', CHR 0x5C,
              CHR ''|'', CHR ''?'', CHR ''*'']"

function collapse_ws :: "string \<Rightarrow> string" where
  \<comment> \<open>\<open>re.sub(r'\s+', '_', text)\<close>: every maximal run of whitespace becomes one \<open>_\<close>.\<close>
  "collapse_ws [] = []"
| "collapse_ws (c # cs) =
     (if py_isspace c then CHR ''_'' # collapse_ws (dropWhile py_isspace cs)
      else c # collapse_ws cs)"
  by pat_completeness auto
termination
  by (relation "measure length") (auto simp: length_dropWhile_le less_Suc_eq_le)

definition sep_char :: "char \<Rightarrow> bool" where
  \<comment> \<open>the characters of \<open>text.strip('._')\<close>\<close>
  "sep_char c \<longleftrightarrow> c = CHR ''.'' \<or> c = CHR ''_''"

definition clean_title :: "string \<Rightarrow> string" where
  \<comment> \<open>the three rewriting steps before the length check\<close>
  "clean_title text =
     py_strip_chars sep_char (collapse_ws (filter (\<lambda>c. \<not> illegal_char c) text))"

definition sanitize_filename :: "string \<Rightarrow> int \<Rightarrow> string" where
  "sanitize_filename text max_length =
     (let t = clean_title text
      in if int (length t) > max_length
         then rsplit1_head (CHR ''_'') (py_slice_to max_length t)
         else t)"

section \<open>Harvester: \<open>fetch_metadata\<close>\<close>

text \<open>
  One pass through the \<open>try\<close> block of the pagination loop either raises (the request, the
  status check, the JSON parse or the lookup of \<open>results\<close>), which is \<open>Failed\<close>, or yields the
  entries \<open>data['results']\<close> together with the link \<open>data.get('next')\<close>. The remote API is a
  parameter: it answers the \<open>i\<close>-th request of a run, made to a given URL.
\<close>

datatype 'a response = Failed | Page "'a list" "string option"

type_synonym 'a api = "nat \<Rightarrow> string \<Rightarrow> 'a response"

definition GUTENDEX_API :: string where
  "GUTENDEX_API = ''https://gutendex.com/books''"

definition start_url :: "string \<Rightarrow> string" where
  "start_url language = GUTENDEX_API @ ''?languages='' @ language"

text \<open>
  The \<open>while\<close> loop. Its state is the list \<open>books\<close> and the link \<open>url\<close>; \<open>i\<close> counts the
  requests made so far and is returned with the list. The loop need not terminate (an API may
  serve empty pages for ever), so it is a partial function.
\<close>

partial_function (option) fetch_loop ::
  "'a api \<Rightarrow> int \<Rightarrow> nat \<Rightarrow> 'a list \<Rightarrow> string option \<Rightarrow> ('a list \<times> nat) option" where
  "fetch_loop api num_books i books url =
     (case url of
        None \<Rightarrow> Some (books, i)
      | Some u \<Rightarrow>
          if int (length books) < num_books \<and> u \<noteq> []
          then (case api i u of
                  Failed \<Rightarrow> Some (books, Suc i)
                | Page results nxt \<Rightarrow> fetch_loop api num_books (Suc i) (books @ results) nxt)
          else Some (books, i))"

definition fetch_metadata :: "'a api \<Rightarrow> int \<Rightarrow> string \<Rightarrow> 'a list option" where
  \<comment> \<open>\<open>None\<close>: the call does not return.\<close>
  "fetch_metadata api num_books language =
     map_option (\<lambda>(books, n). py_slice_to num_books books)
       (fetch_loop api num_books 0 [] (Some (start_url language)))"

definition fetch_requests :: "'a api \<Rightarrow> int \<Rightarrow> string \<Rightarrow> nat option" where
  \<comment> \<open>the number of requests a call of \<open>fetch_metadata\<close> makes\<close>
  "fetch_requests api num_books language =
     map_option snd (fetch_loop api num_books 0 [] (Some (start_url language)))"

fun pages_chain ::
  "'a api \<Rightarrow> nat \<Rightarrow> string option \<Rightarrow> ('a list \<times> string option) list \<Rightarrow> string option \<Rightarrow> bool" where
  \<comment> \<open>Following the links from \<open>url\<close>, requests \<open>i, i+1, ...\<close> are answered by the pages \<open>ps\<close>
      (entries and next link of each); \<open>url'\<close> is the link of the last of them.\<close>
  "pages_chain api i url [] url' = (url' = url)"
| "pages_chain api i url ((es, nxt) # ps) url' =
     (case url of
        None \<Rightarrow> False
      | Some u \<Rightarrow> u \<noteq> [] \<and> api i u = Page es nxt \<and> pages_chain api (Suc i) nxt ps url')"

definition no_next :: "string option \<Rightarrow> bool" where
  \<comment> \<open>a link that ends the loop: \<open>None\<close> or the empty string\<close>
  "no_next url \<longleftrightarrow> url = None \<or> url = Some []"

text \<open>An API with two pages of two entries each; every later request fails.\<close>

definition demo_api :: "nat api" where
  "demo_api i u =
     (if i = 0 then Page [1, 2] (Some ''p2'')
      else if i = 1 then Page [3, 4] (Some ''p3'')
      else Failed)"


section \<open>Harvester: \<open>strip_gutenberg_headers\<close>\<close>

text \<open>
  The marker patterns use two constructs only: literal characters, compared without regard to
  case under \<open>re.IGNORECASE\<close>, and the greedy \<open>.+\<close>, which takes one or more characters
  other than a newline. A pattern is the list of its items.
\<close>

datatype rx = Lit char | AnyPlus

definition ascii_lower :: "char \<Rightarrow> char" where
  "ascii_lower c =
     (case map_of (zip ''ABCDEFGHIJKLMNOPQRSTUVWXYZ'' ''abcdefghijklmnopqrstuvwxyz'') c of
        Some l \<Rightarrow> l
      | None \<Rightarrow> c)"

definition ci_eq :: "char \<Rightarrow> char \<Rightarrow> bool" where
  \<comment> \<open>a literal of a pattern (all of them ASCII) against a character of the text\<close>
  "ci_eq p x \<longleftrightarrow> ascii_lower p = ascii_lower x"

fun first_some :: "'a option list \<Rightarrow> 'a option" where
  "first_some [] = None"
| "first_some (None # xs) = first_some xs"
| "first_some (Some x # xs) = Some x"

fun match_here :: "rx list \<Rightarrow> string \<Rightarrow> nat option" where
  \<comment> \<open>The length of the match of the pattern at the start of \<open>s\<close>, as the backtracking
      matcher finds it: \<open>.+\<close> tries the longest run first and gives characters back.\<close>
  "match_here [] s = Some 0"
| "match_here (Lit c # r) s =
     (case s of
        [] \<Rightarrow> None
      | x # xs \<Rightarrow> if ci_eq c x then map_option Suc (match_here r xs) else None)"
| "match_here (AnyPlus # r) s =
     first_some
       (map (\<lambda>n. map_option (\<lambda>m. n + m) (match_here r (drop n s)))
            (rev [1 ..< Suc (length (takeWhile (\<lambda>x. x \<noteq> CHR 0x0A) s))]))"

fun search_from :: "rx list \<Rightarrow> nat \<Rightarrow> string \<Rightarrow> (nat \<times> nat) option" where
  \<comment> \<open>scan of the start positions from left to right; \<open>i\<close> is the offset of \<open>s\<close> in the text\<close>
  "search_from p i [] =
     (case match_here p [] of Some n \<Rightarrow> Some (i, i + n) | None \<Rightarrow> None)"
| "search_from p i (x # t) =
     (case match_here p (x # t) of
        Some n \<Rightarrow> Some (i, i + n)
      | None \<Rightarrow> search_from p (Suc i) t)"

definition re_search :: "rx list \<Rightarrow> string \<Rightarrow> (nat \<times> nat) option" where
  \<comment> \<open>\<open>re.search(marker, text, re.IGNORECASE)\<close>: \<open>(match.start(), match.end())\<close> or \<open>None\<close>\<close>
  "re_search p s = search_from p 0 s"

definition lits :: "string \<Rightarrow> rx list" where
  "lits s = map Lit s"

definition start_markers :: "rx list list" where
  "start_markers =
     [lits ''*** START OF THIS PROJECT GUTENBERG EBOOK '' @ AnyPlus # lits '' ***'',
      lits ''***START OF THE PROJECT GUTENBERG EBOOK '' @ AnyPlus # lits '' ***'',
      lits ''START OF THIS PROJECT GUTENBERG EBOOK'']"

definition end_markers :: "rx list list" where
  "end_markers =
     [lits ''*** END OF THIS PROJECT GUTENBERG EBOOK '' @ AnyPlus # lits '' ***'',
      lits ''***END OF THE PROJECT GUTENBERG EBOOK '' @ AnyPlus # lits '' ***'',
      lits ''END OF THIS PROJECT GUTENBERG EBOOK'']"

fun start_loop :: "rx list list \<Rightarrow> string \<Rightarrow> nat \<Rightarrow> nat" where
  \<comment> \<open>the first \<open>for\<close> loop: \<open>match.end()\<close> of the first marker found, then \<open>break\<close>\<close>
  "start_loop [] text start_pos = start_pos"
| "start_loop (marker # rest) text start_pos =
     (case re_search marker text of
        Some (s, e) \<Rightarrow> e
      | None \<Rightarrow> start_loop rest text start_pos)"

fun end_loop :: "rx list list \<Rightarrow> string \<Rightarrow> nat \<Rightarrow> nat" where
  \<comment> \<open>the second \<open>for\<close> loop: \<open>match.start()\<close> of the first marker found, then \<open>break\<close>\<close>
  "end_loop [] text end_pos = end_pos"
| "end_loop (marker # rest) text end_pos =
     (case re_search marker text of
        Some (s, e) \<Rightarrow> s
      | None \<Rightarrow> end_loop rest text end_pos)"

definition start_pos :: "string \<Rightarrow> nat" where
  "start_pos text = start_loop start_markers text 0"

definition end_pos :: "string \<Rightarrow> nat" where
  "end_pos text = end_loop end_markers text (length text)"

definition strip_gutenberg_headers :: "string \<Rightarrow> string" where
  "strip_gutenberg_headers text = py_strip (py_slice (start_pos text) (end_pos text) text)"

section \<open>Harvester: \<open>download_book_text\<close>\<close>

subsection \<open>Integers as text\<close>

definition digit_char :: "nat \<Rightarrow> char" where
  "digit_char d = char_of (48 + d)"

definition is_digit :: "char \<Rightarrow> bool" where
  "is_digit c \<longleftrightarrow> 48 \<le> (of_char c :: nat) \<and> (of_char c :: nat) \<le> 57"

definition digit_val :: "char \<Rightarrow> nat" where
  "digit_val c = of_char c - 48"

fun digits :: "nat \<Rightarrow> string" where
  "digits n = (if n < 10 then [digit_char n] else digits (n div 10) @ [digit_char (n mod 10)])"

declare digits.simps [simp del]

definition py_str :: "int \<Rightarrow> string" where
  \<comment> \<open>\<open>str(n)\<close>, also what an f-string writes for an integer\<close>
  "py_str n = (if n < 0 then CHR ''-'' # digits (nat (- n)) else digits (nat n))"

fun valid_digits :: "string \<Rightarrow> bool" where
  \<comment> \<open>decimal digits, with single underscores allowed between two digits\<close>
  "valid_digits [] = False"
| "valid_digits [c] = is_digit c"
| "valid_digits (c # d # r) =
     (is_digit c \<and> (if d = CHR ''_'' then valid_digits r else valid_digits (d # r)))"

definition parse_decimal :: "string \<Rightarrow> nat option" where
  "parse_decimal s =
     (if valid_digits s
      then Some (fold (\<lambda>c acc. acc * 10 + digit_val c) (filter (\<lambda>c. c \<noteq> CHR ''_'') s) 0)
      else None)"

definition int_space :: "char \<Rightarrow> bool" where
  \<comment> \<open>The whitespace that \<open>int\<close> skips around a numeral: the ASCII characters 9..13 and 32,
      and the non-ASCII spaces, which are 133 and 160 below 256. Unlike \<open>str.strip\<close> it does
      not skip the separators 28..31.\<close>
  "int_space c \<longleftrightarrow>
     c \<in> set [CHR 0x09, CHR 0x0A, CHR 0x0B, CHR 0x0C, CHR 0x0D, CHR 0x20, CHR 0x85, CHR 0xA0]"

definition py_int :: "string \<Rightarrow> int option" where
  \<comment> \<open>\<open>int(s)\<close>; \<open>None\<close> is the \<open>ValueError\<close>. Surrounding whitespace and one sign are
      accepted.\<close>
  "py_int s =
     (case py_strip_chars int_space s of
        [] \<Rightarrow> None
      | c # r \<Rightarrow>
          if c = CHR ''-'' then map_option (\<lambda>n. - int n) (parse_decimal r)
          else if c = CHR ''+'' then map_option int (parse_decimal r)
          else map_option int (parse_decimal (c # r)))"

subsection \<open>Fetching and decoding\<close>

text \<open>
  The outcome of the request in \<open>download_book_text\<close>: \<open>TransportError\<close> when
  \<open>requests.get\<close> or \<open>raise_for_status\<close> raises, otherwise the bytes of the body.
\<close>

datatype http_result = TransportError | Content "8 word list"

definition text_url :: "int \<Rightarrow> string" where
  \<comment> \<open>\<open>GUTENBERG_TEXT_URL.format(id=book_id)\<close>\<close>
  "text_url book_id =
     ''https://www.gutenberg.org/files/'' @ py_str book_id @ ''/'' @ py_str book_id @ ''-0.txt''"

definition decode_latin1 :: "8 word list \<Rightarrow> string" where
  \<comment> \<open>\<open>content.decode('latin-1')\<close>: every byte is the character with that code point\<close>
  "decode_latin1 bs = map (\<lambda>b. char_of (unat b)) bs"

definition decode_content :: "(8 word list \<Rightarrow> string option) \<Rightarrow> 8 word list \<Rightarrow> string" where
  \<comment> \<open>The inner \<open>try\<close>. \<open>utf8\<close> stands for \<open>content.decode('utf-8')\<close>, a builtin taken as a
      parameter; its \<open>None\<close> is the \<open>UnicodeDecodeError\<close>.\<close>
  "decode_content utf8 bs = (case utf8 bs of Some text \<Rightarrow> text | None \<Rightarrow> decode_latin1 bs)"

definition download_book_text ::
  "(8 word list \<Rightarrow> string option) \<Rightarrow> (string \<Rightarrow> http_result) \<Rightarrow> int \<Rightarrow> string option" where
  \<comment> \<open>\<open>None\<close> is the \<open>return None\<close> of the outer \<open>except\<close>.\<close>
  "download_book_text utf8 get book_id =
     (case get (text_url book_id) of
        TransportError \<Rightarrow> None
      | Content bs \<Rightarrow> Some (strip_gutenberg_headers (decode_content utf8 bs)))"

section \<open>Publisher: \<open>create_metadata\<close>\<close>

record person =
  name :: "string option"

record book_meta =
  book_id :: "int option"
  title :: "string option"
  authors :: "person list"
  editors :: "person list"
  translators :: "person list"
  subjects :: "string list"
  bookshelves :: "string list"
  summaries :: "string list"
  languages :: "string list"

text \<open>
  The state of the uploader that \<open>create_metadata\<close> reads: the two dictionaries loaded
  from the CSV file and the optional module \<open>pycountry\<close>, whose lookup
  \<open>languages.get(alpha_2=code)\<close> is a table from two-letter codes to the \<open>alpha_3\<close> of the
  entry; \<open>None\<close> for the module means that the import failed.
\<close>

record uploader =
  publication_years :: "int \<rightharpoonup> int"
  wikipedia_urls :: "int \<rightharpoonup> string"
  pycountry :: "(string \<rightharpoonup> string) option"

record person_or_org =
  po_type :: string
  po_name :: string
  given_name :: "string option"
  family_name :: "string option"

record creator =
  person_or_org :: person_or_org
  role :: "string option"

record alt_identifier =
  id_identifier :: string
  id_scheme :: string

record rights_entry =
  rights_title :: string
  rights_description :: string

record add_desc =
  ad_description :: "string option"
  ad_type :: string

record related_identifier =
  rel_identifier :: string
  rel_scheme :: string
  rel_relation_type :: string
  rel_resource_type :: string

record target_metadata =
  md_resource_type :: string
  md_title :: string
  md_creators :: "creator list"
  md_publication_date :: string
  md_languages :: "string list option"
  md_description :: "string option"
  md_subjects :: "string list option"
  md_identifiers :: "alt_identifier list option"
  md_contributors :: "creator list option"
  md_formats :: "string list"
  md_publisher :: string
  md_rights :: "rights_entry list"
  md_additional_descriptions :: "add_desc list"
  md_related_identifiers :: "related_identifier list option"

definition py_split1 :: "char \<Rightarrow> string \<Rightarrow> string list" where
  \<comment> \<open>\<open>s.split(c, 1)\<close>\<close>
  "py_split1 c s =
     (if c \<in> set s then [takeWhile (\<lambda>x. x \<noteq> c) s, tl (dropWhile (\<lambda>x. x \<noteq> c) s)] else [s])"

definition parse_name :: "string \<Rightarrow> string \<times> string" where
  \<comment> \<open>the parse of the "Last, First" format: \<open>(family_name, given_name)\<close>\<close>
  "parse_name author_name =
     (if CHR '','' \<in> set author_name
      then (case py_split1 (CHR '','') author_name of
              p0 # p1 # _ \<Rightarrow> (py_strip p0, py_strip p1)
            | [p0] \<Rightarrow> (py_strip p0, [])
            | [] \<Rightarrow> ([], []))
      else (author_name, []))"

definition nonempty :: "string \<Rightarrow> string option" where
  \<comment> \<open>a key that is set only \<open>if value:\<close>\<close>
  "nonempty s = (if s = [] then None else Some s)"

definition make_person :: "string \<Rightarrow> person \<Rightarrow> person_or_org" where
  "make_person fallback p =
     (let author_name = (case name p of None \<Rightarrow> fallback | Some n \<Rightarrow> n);
          (family, given) = parse_name author_name
      in \<lparr>po_type = ''personal'', po_name = author_name,
          given_name = nonempty given, family_name = nonempty family\<rparr>)"

definition unknown_creator :: creator where
  "unknown_creator =
     \<lparr>person_or_org = \<lparr>po_type = ''personal'', po_name = ''Unknown Author'',
                 given_name = None, family_name = Some ''Unknown''\<rparr>,
      role = None\<rparr>"

definition creators_of :: "book_meta \<Rightarrow> creator list" where
  "creators_of bm =
     (let creators = map (\<lambda>a. \<lparr>person_or_org = make_person ''Unknown Author'' a, role = None\<rparr>)
                         (authors bm)
      in if creators = [] then [unknown_creator] else creators)"

definition contributors_of :: "book_meta \<Rightarrow> creator list" where
  "contributors_of bm =
     map (\<lambda>e. \<lparr>person_or_org = make_person ''Unknown Editor'' e, role = Some ''editor''\<rparr>) (editors bm)
     @ map (\<lambda>t. \<lparr>person_or_org = make_person ''Unknown Translator'' t, role = Some ''other''\<rparr>)
           (translators bm)"

definition convert_lang :: "(string \<rightharpoonup> string) option \<Rightarrow> string \<Rightarrow> string" where
  \<comment> \<open>the body of the loop over \<open>languages_list\<close>\<close>
  "convert_lang pc lang_code =
     (case pc of
        Some table \<Rightarrow>
          if length lang_code = 2
          then (case table lang_code of Some alpha_3 \<Rightarrow> alpha_3 | None \<Rightarrow> lang_code)
          else lang_code
      | None \<Rightarrow> lang_code)"

fun convert_loop :: "(string \<rightharpoonup> string) option \<Rightarrow> string list \<Rightarrow> string list \<Rightarrow> string list" where
  "convert_loop pc converted_langs [] = converted_langs"
| "convert_loop pc converted_langs (lang_code # rest) =
     convert_loop pc (converted_langs @ [convert_lang pc lang_code]) rest"

definition converted_languages :: "(string \<rightharpoonup> string) option \<Rightarrow> string list \<Rightarrow> string list option" where
  \<comment> \<open>the value of the key \<open>languages\<close>, or \<open>None\<close> when the key is not set\<close>
  "converted_languages pc languages_list =
     (if languages_list \<noteq> []
      then (let converted_langs = convert_loop pc [] languages_list
            in if converted_langs \<noteq> [] then Some converted_langs else None)
      else None)"

definition fmt_id :: "int option \<Rightarrow> string" where
  \<comment> \<open>\<open>{book_meta.get('id')}\<close> inside an f-string\<close>
  "fmt_id i = (case i of None \<Rightarrow> ''None'' | Some n \<Rightarrow> py_str n)"

definition truthy_id :: "int option \<Rightarrow> bool" where
  "truthy_id i \<longleftrightarrow> (case i of None \<Rightarrow> False | Some n \<Rightarrow> n \<noteq> 0)"

definition additional_description :: "book_meta \<Rightarrow> string" where
  "additional_description bm =
     ''Project Gutenberg eBook #'' @ fmt_id (book_id bm) @ ''. ''
     @ ''Downloaded from https://www.gutenberg.org/ebooks/'' @ fmt_id (book_id bm)"

definition create_metadata :: "uploader \<Rightarrow> book_meta \<Rightarrow> target_metadata" where
  "create_metadata self bm =
     (let subjects_list = subjects bm @ take 3 (bookshelves bm);
          description = (case summaries bm of [] \<Rightarrow> [] | s # _ \<Rightarrow> s);
          known = (case book_id bm of
                     None \<Rightarrow> None
                   | Some n \<Rightarrow> if n \<noteq> 0 then publication_years self n else None);
          pub_date = (case known of Some pub_year \<Rightarrow> py_str pub_year | None \<Rightarrow> ''1900'');
          contributors = contributors_of bm
      in \<lparr>md_resource_type = ''publication-book'',
          md_title = (case title bm of Some t \<Rightarrow> t | None \<Rightarrow> ''Book '' @ fmt_id (book_id bm)),
          md_creators = creators_of bm,
          md_publication_date = pub_date,
          md_languages = converted_languages (pycountry self) (languages bm),
          md_description = nonempty description,
          md_subjects = (if subjects_list \<noteq> [] then Some subjects_list else None),
          md_identifiers =
            (case book_id bm of
               None \<Rightarrow> None
             | Some n \<Rightarrow>
                 if n \<noteq> 0 then Some [\<lparr>id_identifier = py_str n, id_scheme = ''other''\<rparr>]
                 else None),
          md_contributors = (if contributors \<noteq> [] then Some contributors else None),
          md_formats = [''text/plain''],
          md_publisher = ''Project Gutenberg'',
          md_rights =
            [\<lparr>rights_title = ''Public Domain'',
              rights_description = ''This work is in the public domain in the United States.''\<rparr>],
          md_additional_descriptions =
            [\<lparr>ad_description = Some (additional_description bm), ad_type = ''other''\<rparr>],
          md_related_identifiers =
            (case book_id bm of
               None \<Rightarrow> None
             | Some n \<Rightarrow>
                 if n \<noteq> 0
                 then (case wikipedia_urls self n of
                         Some wiki_url \<Rightarrow>
                           Some [\<lparr>rel_identifier = wiki_url, rel_scheme = ''url'',
                                  rel_relation_type = ''describes'',
                                  rel_resource_type = ''other''\<rparr>]
                       | None \<Rightarrow> None)
                 else None)\<rparr>)"

section \<open>Publisher: \<open>extract_gutenberg_id\<close>\<close>

text \<open>A record as the repository returns it: the metadata may be missing.\<close>

record inv_record =
  rec_id :: "string option"
  rec_metadata :: "target_metadata option"

fun py_contains :: "string \<Rightarrow> string \<Rightarrow> bool" where
  \<comment> \<open>\<open>needle in text\<close>\<close>
  "py_contains needle [] = (needle = [])"
| "py_contains needle (x # xs) = (prefix needle (x # xs) \<or> py_contains needle xs)"

fun py_split :: "char \<Rightarrow> string \<Rightarrow> string list" where
  \<comment> \<open>\<open>s.split(c)\<close> for a separator of one character\<close>
  "py_split c [] = [ [] ]"
| "py_split c (x # xs) =
     (if x = c then [] # py_split c xs
      else (case py_split c xs of
              p # ps \<Rightarrow> (x # p) # ps
            | [] \<Rightarrow> [ [x] ]))"

fun extract_loop :: "add_desc list \<Rightarrow> int option" where
  \<comment> \<open>The \<open>for\<close> loop; an \<open>IndexError\<close> or a \<open>ValueError\<close> goes on to the next entry.\<close>
  "extract_loop [] = None"
| "extract_loop (desc # rest) =
     (let desc_text = (case ad_description desc of None \<Rightarrow> [] | Some t \<Rightarrow> t)
      in if py_contains ''Project Gutenberg eBook #'' desc_text
         then (case py_split (CHR ''#'') desc_text of
                 _ # after # _ \<Rightarrow>
                   (case py_split (CHR ''.'') after of
                      id_str # _ \<Rightarrow>
                        (case py_int id_str of
                           Some n \<Rightarrow> Some n
                         | None \<Rightarrow> extract_loop rest)
                    | [] \<Rightarrow> extract_loop rest)
               | _ \<Rightarrow> extract_loop rest)
         else extract_loop rest)"

definition extract_gutenberg_id :: "inv_record \<Rightarrow> int option" where
  "extract_gutenberg_id record =
     (case rec_metadata record of
        None \<Rightarrow> None
      | Some metadata \<Rightarrow> extract_loop (md_additional_descriptions metadata))"

section \<open>What a marker pattern matches\<close>

text \<open>
  The meaning of the patterns, stated without the matcher. A literal stands for itself and,
  when it is an ASCII letter, for the same letter in the other case; \<open>.+\<close> stands for one or
  more characters other than a newline. \<open>rx_matches p w\<close> says that the whole of \<open>w\<close> is in the
  language of \<open>p\<close>.
\<close>

definition letter_pairs :: "(char \<times> char) list" where
  "letter_pairs = zip ''ABCDEFGHIJKLMNOPQRSTUVWXYZ'' ''abcdefghijklmnopqrstuvwxyz''"

definition same_letter :: "char \<Rightarrow> char \<Rightarrow> bool" where
  "same_letter p x \<longleftrightarrow> p = x \<or> (p, x) \<in> set letter_pairs \<or> (x, p) \<in> set letter_pairs"

fun rx_matches :: "rx list \<Rightarrow> string \<Rightarrow> bool" where
  "rx_matches [] w = (w = [])"
| "rx_matches (Lit c # r) w =
     (case w of [] \<Rightarrow> False | x # xs \<Rightarrow> same_letter c x \<and> rx_matches r xs)"
| "rx_matches (AnyPlus # r) w =
     list_ex (\<lambda>n. CHR 0x0A \<notin> set (take n w) \<and> rx_matches r (drop n w)) [1 ..< Suc (length w)]"

definition occurs :: "rx list \<Rightarrow> string \<Rightarrow> nat \<Rightarrow> nat \<Rightarrow> bool" where
  \<comment> \<open>the part of the text from offset \<open>i\<close> up to offset \<open>j\<close> matches the pattern\<close>
  "occurs p text i j \<longleftrightarrow>
     i \<le> j \<and> j \<le> length text \<and> rx_matches p (take (j - i) (drop i text))"

definition found :: "rx list \<Rightarrow> string \<Rightarrow> bool" where
  \<comment> \<open>the pattern matches somewhere in the text\<close>
  "found p text \<longleftrightarrow>
     list_ex (\<lambda>i. list_ex (\<lambda>j. occurs p text i j) [i ..< Suc (length text)])
       [0 ..< Suc (length text)]"

definition leftmost_longest :: "rx list \<Rightarrow> string \<Rightarrow> nat \<Rightarrow> nat \<Rightarrow> bool" where
  \<comment> \<open>The match that \<open>re.search\<close> reports for a pattern whose only repetition is greedy: no
      match starts further left, and none from the same start ends further right.\<close>
  "leftmost_longest p text i j \<longleftrightarrow>
     occurs p text i j
     \<and> list_all (\<lambda>i'. list_all (\<lambda>j'. occurs p text i' j' \<longrightarrow> i < i' \<or> (i' = i \<and> j' \<le> j))
                       [0 ..< Suc (length text)])
         [0 ..< Suc (length text)]"

fun simple :: "rx list \<Rightarrow> bool" where
  \<comment> \<open>at most one \<open>.+\<close>, as in all the markers\<close>
  "simple [] = True"
| "simple (Lit c # r) = simple r"
| "simple (AnyPlus # r) = (AnyPlus \<notin> set r)"

section \<open>Publisher: the processing limit\<close>

text \<open>
  \<open>upload_book\<close> and \<open>update_record\<close> act on the outside world (files are read, requests are
  made) and then return \<open>True\<close> or \<open>False\<close>, or raise: both read a metadata file with
  \<open>json.load\<close> outside any \<open>try\<close>. Neither \<open>upload_all\<close> nor \<open>update_all\<close> catches the
  exception, so it ends the whole call. A step is therefore a function from the item and the
  world to an outcome and the new world.
\<close>

datatype 'a outcome = Raised | Returned 'a

type_synonym ('x, 'w) step = "'x \<Rightarrow> 'w \<Rightarrow> bool outcome \<times> 'w"

record 'f upload_summary =
  total :: nat
  successful :: nat
  failed :: "'f list"

fun upload_loop ::
  "('f, 'w) step \<Rightarrow> 'f list \<Rightarrow> nat \<Rightarrow> 'f list \<Rightarrow> 'w \<Rightarrow> (nat \<times> 'f list) outcome \<times> 'w" where
  \<comment> \<open>the \<open>for\<close> loop of \<open>upload_all\<close> with its two accumulators\<close>
  "upload_loop upload_book [] n_ok failures w = (Returned (n_ok, failures), w)"
| "upload_loop upload_book (metadata_file # rest) n_ok failures w =
     (case upload_book metadata_file w of
        (Raised, w') \<Rightarrow> (Raised, w')
      | (Returned ok, w') \<Rightarrow>
          if ok then upload_loop upload_book rest (n_ok + 1) failures w'
          else upload_loop upload_book rest n_ok (failures @ [metadata_file]) w')"

definition upload_all ::
  "('f, 'w) step \<Rightarrow> 'f list option \<Rightarrow> int option \<Rightarrow> 'w
     \<Rightarrow> 'f upload_summary option outcome \<times> 'w" where
  \<comment> \<open>\<open>files\<close> is the sorted listing of the metadata directory, \<open>None\<close> when the directory
      does not exist (the early \<open>return\<close>, result \<open>Returned None\<close>). The summary holds what
      the function prints at its end: \<open>len(metadata_files)\<close>, \<open>successful\<close> and \<open>failed\<close>.\<close>
  "upload_all upload_book files limit w =
     (case files of
        None \<Rightarrow> (Returned None, w)
      | Some all_files \<Rightarrow>
          (let metadata_files =
                 (case limit of
                    None \<Rightarrow> all_files
                  | Some l \<Rightarrow> if l \<noteq> 0 then py_slice_to l all_files else all_files)
           in case upload_loop upload_book metadata_files 0 [] w of
                (Raised, w') \<Rightarrow> (Raised, w')
              | (Returned (n_ok, failures), w') \<Rightarrow>
                  (Returned (Some \<lparr>total = length metadata_files, successful = n_ok,
                                   failed = failures\<rparr>), w')))"

record 'r update_summary =
  upd_successful :: nat
  upd_failed :: "'r list"

fun update_loop ::
  "('r, 'w) step \<Rightarrow> int option \<Rightarrow> int \<Rightarrow> 'r list \<Rightarrow> nat \<Rightarrow> 'r list \<Rightarrow> 'w
     \<Rightarrow> (nat \<times> 'r list) outcome \<times> 'w" where
  \<comment> \<open>the \<open>for\<close> loop of \<open>update_all\<close>: \<open>count\<close> is increased first, then the limit is
      tested (\<open>if limit and count > limit: break\<close>)\<close>
  "update_loop update_record limit cnt [] n_ok failures w = (Returned (n_ok, failures), w)"
| "update_loop update_record limit cnt (record # rest) n_ok failures w =
     (let cnt = cnt + 1
      in if (case limit of None \<Rightarrow> False | Some l \<Rightarrow> l \<noteq> 0 \<and> cnt > l)
         then (Returned (n_ok, failures), w)
         else (case update_record record w of
                 (Raised, w') \<Rightarrow> (Raised, w')
               | (Returned ok, w') \<Rightarrow>
                   if ok then update_loop update_record limit cnt rest (n_ok + 1) failures w'
                   else update_loop update_record limit cnt rest n_ok (failures @ [record]) w'))"

definition update_all ::
  "('r, 'w) step \<Rightarrow> 'r list \<Rightarrow> int option \<Rightarrow> 'w \<Rightarrow> 'r update_summary outcome \<times> 'w" where
  \<comment> \<open>\<open>records\<close> are the records that \<open>get_existing_records\<close> yields, in order.\<close>
  "update_all update_record records limit w =
     (case update_loop update_record limit 0 records 0 [] w of
        (Raised, w') \<Rightarrow> (Raised, w')
      | (Returned (n_ok, failures), w') \<Rightarrow>
          (Returned \<lparr>upd_successful = n_ok, upd_failed = failures\<rparr>, w'))"

text \<open>
  What it means to process every item of a list, stated on its own: the items are given to
  the step one after the other, each in the world the previous one left; the result counts
  the items for which the step returned \<open>True\<close> and lists those for which it returned
  \<open>False\<close>; an exception of the step ends the run at that item.
\<close>

fun process_all ::
  "('x, 'w) step \<Rightarrow> 'x list \<Rightarrow> 'w \<Rightarrow> (nat \<times> 'x list) outcome \<times> 'w" where
  "process_all step [] w = (Returned (0, []), w)"
| "process_all step (x # xs) w =
     (case step x w of
        (Raised, w') \<Rightarrow> (Raised, w')
      | (Returned ok, w') \<Rightarrow>
          (case process_all step xs w' of
             (Raised, w'') \<Rightarrow> (Raised, w'')
           | (Returned (n, fs), w'') \<Rightarrow>
               (Returned (if ok then (Suc n, fs) else (n, x # fs)), w'')))"

definition upload_report :: "(nat \<times> 'f list) outcome \<times> 'w \<Rightarrow> nat
     \<Rightarrow> 'f upload_summary option outcome \<times> 'w" where
  "upload_report r n =
     (case r of
        (Raised, w) \<Rightarrow> (Raised, w)
      | (Returned (n_ok, failures), w) \<Rightarrow>
          (Returned (Some \<lparr>total = n, successful = n_ok, failed = failures\<rparr>), w))"

definition update_report :: "(nat \<times> 'r list) outcome \<times> 'w \<Rightarrow> 'r update_summary outcome \<times> 'w" where
  "update_report r =
     (case r of
        (Raised, w) \<Rightarrow> (Raised, w)
      | (Returned (n_ok, failures), w) \<Rightarrow>
          (Returned \<lparr>upd_successful = n_ok, upd_failed = failures\<rparr>, w))"

text \<open>A step that logs its item in the world and fails on the item \<open>b\<close>.\<close>

definition demo_step :: "(string, string list) step" where
  "demo_step x w = (Returned (x \<noteq> ''b''), w @ [x])"

section \<open>A sample uploader and a sample book\<close>

definition demo_uploader :: uploader where
  "demo_uploader =
     \<lparr>publication_years = Map.empty, wikipedia_urls = Map.empty,
      pycountry = Some [''en'' \<mapsto> ''eng'']\<rparr>"

definition demo_book :: book_meta where
  "demo_book =
     \<lparr>book_id = Some 84, title = Some ''Frankenstein'',
      authors = [\<lparr>name = Some ''Shelley, Mary Wollstonecraft''\<rparr>, \<lparr>name = Some ''Plato''\<rparr>],
      editors = [], translators = [\<lparr>name = Some ''Doe,  Jane ''\<rparr>],
      subjects = [''Horror''], bookshelves = [], summaries = [],
      languages = [''en'', ''xx'', ''fra'']\<rparr>"

text \<open>A text with a start marker in mixed case and an end marker in lower case.\<close>

definition sample_text :: string where
  "sample_text =
     ''*** Start of This Project Gutenberg eBook X ***'' @ [CHR 0x0A] @ ''Hi'' @ [CHR 0x0A]
     @ ''end of this project gutenberg ebook''"

section \<open>The identifier round trip\<close>


lemma of_char_digit_char: "d < 10 \<Longrightarrow> (of_char (digit_char d) :: nat) = 48 + d"
  by (simp add: digit_char_def)

lemma is_digit_digit_char: "d < 10 \<Longrightarrow> is_digit (digit_char d)"
  by (simp add: is_digit_def of_char_digit_char)

lemma digit_val_digit_char: "d < 10 \<Longrightarrow> digit_val (digit_char d) = d"
  by (simp add: digit_val_def of_char_digit_char)

lemma digits_all_digit: "c \<in> set (digits n) \<Longrightarrow> is_digit c"
proof (induction n rule: digits.induct)
  case (1 n)
  show ?case
  proof (cases "n < 10")
    case True
    with 1(2) show ?thesis by (simp add: digits.simps[of n] is_digit_digit_char)
  next
    case False
    with 1 show ?thesis
      by (auto simp: digits.simps[of n] is_digit_digit_char)
  qed
qed

lemma digits_nonempty: "digits n \<noteq> []"
  by (subst digits.simps) simp

lemma valid_digits_all: "s \<noteq> [] \<Longrightarrow> \<forall>c \<in> set s. is_digit c \<Longrightarrow> valid_digits s"
proof (induction s rule: valid_digits.induct)
  case 1
  then show ?case by simp
next
  case (2 c)
  then show ?case by simp
next
  case (3 c d r)
  have "\<not> is_digit (CHR ''_'')" by (simp add: is_digit_def)
  with 3 show ?case by auto
qed

lemma fold_digits_value:
  "fold (\<lambda>c acc. acc * 10 + digit_val c) (digits n) 0 = n"
proof (induction n rule: digits.induct)
  case (1 n)
  show ?case
  proof (cases "n < 10")
    case True
    then show ?thesis by (simp add: digits.simps[of n] digit_val_digit_char)
  next
    case False
    then have "fold (\<lambda>c acc. acc * 10 + digit_val c) (digits (n div 10)) 0 = n div 10"
      using 1 by simp
    then show ?thesis using False
      by (simp add: digits.simps[of n] digit_val_digit_char)
  qed
qed

lemma parse_decimal_digits: "parse_decimal (digits n) = Some n"
proof -
  have v: "valid_digits (digits n)"
    by (rule valid_digits_all) (auto simp: digits_nonempty digits_all_digit)
  have "\<not> is_digit (CHR ''_'')" by (simp add: is_digit_def)
  then have "filter (\<lambda>c. c \<noteq> CHR ''_'') (digits n) = digits n"
    by (auto simp: filter_id_conv dest: digits_all_digit)
  then show ?thesis using v by (simp add: parse_decimal_def fold_digits_value)
qed


lemma py_strip_chars_id:
  assumes "s \<noteq> []" "\<not> P (hd s)" "\<not> P (last s)"
  shows "py_strip_chars P s = s"
proof -
  obtain x xs where s: "s = x # xs" using assms(1) by (cases s) auto
  with assms(2) have d: "dropWhile P s = s" by simp
  have "rev s \<noteq> []" using assms(1) by simp
  moreover have "hd (rev s) = last s" using assms(1) by (simp add: hd_rev)
  ultimately obtain y ys where r: "rev s = y # ys" and y: "y = last s"
    by (cases "rev s") auto
  have "dropWhile P (rev s) = rev s" unfolding r using assms(3) y by simp
  then show ?thesis by (simp add: py_strip_chars_def d)
qed

lemma is_digit_not_space: "is_digit c \<Longrightarrow> \<not> int_space c"
  by (auto simp: int_space_def is_digit_def)

lemma last_digits_is_digit: "is_digit (last (digits n))"
  using digits_nonempty[of n] digits_all_digit[of "last (digits n)" n] by simp

lemma hd_digits_is_digit: "is_digit (hd (digits n))"
  using digits_nonempty[of n] digits_all_digit[of "hd (digits n)" n] by simp

lemma py_str_chars: "c \<in> set (py_str n) \<Longrightarrow> is_digit c \<or> c = CHR ''-''"
  by (auto simp: py_str_def dest: digits_all_digit split: if_splits)

lemma py_strip_py_str: "py_strip_chars int_space (py_str n) = py_str n"
proof -
  have ne: "py_str n \<noteq> []" by (simp add: py_str_def digits_nonempty)
  have m: "\<not> int_space (CHR ''-'')" by (simp add: int_space_def)
  have h: "\<not> int_space (hd (py_str n))"
    using hd_digits_is_digit m by (auto simp: py_str_def dest: is_digit_not_space)
  have "last (py_str n) = last (digits (nat \<bar>n\<bar>))"
    by (auto simp: py_str_def digits_nonempty)
  then have l: "\<not> int_space (last (py_str n))"
    using last_digits_is_digit[of "nat \<bar>n\<bar>"] by (simp add: is_digit_not_space)
  show ?thesis using ne h l by (rule py_strip_chars_id)
qed

lemma py_int_py_str: "py_int (py_str n) = Some n"
proof (cases "n < 0")
  case True
  then have "py_strip_chars int_space (py_str n) = CHR ''-'' # digits (nat (- n))"
    by (simp add: py_strip_py_str) (simp add: py_str_def)
  then show ?thesis using True by (simp add: py_int_def parse_decimal_digits)
next
  case False
  obtain c r where cr: "digits (nat n) = c # r"
    using digits_nonempty[of "nat n"] by (cases "digits (nat n)") auto
  then have "is_digit c" using hd_digits_is_digit[of "nat n"] by simp
  moreover have "\<not> is_digit (CHR ''-'')" "\<not> is_digit (CHR ''+'')"
    by (simp_all add: is_digit_def)
  ultimately have c: "c \<noteq> CHR ''-''" "c \<noteq> CHR ''+''" by auto
  have "py_strip_chars int_space (py_str n) = c # r"
    using False cr by (simp add: py_strip_py_str) (simp add: py_str_def)
  moreover have "parse_decimal (c # r) = Some (nat n)"
    using parse_decimal_digits[of "nat n"] cr by simp
  ultimately show ?thesis using c False by (simp add: py_int_def)
qed

lemma py_split_nonempty: "py_split c s \<noteq> []"
  by (induction s) (auto split: list.splits)

lemma py_split_none: "c \<notin> set a \<Longrightarrow> py_split c a = [a]"
  by (induction a) auto

lemma py_split_first: "c \<notin> set a \<Longrightarrow> py_split c (a @ c # b) = a # py_split c b"
proof (induction a)
  case Nil
  then show ?case by simp
next
  case (Cons x a)
  then show ?case by auto
qed

lemma py_contains_prefix: "py_contains needle (needle @ r)"
proof (cases "needle @ r")
  case Nil
  then show ?thesis by simp
next
  case (Cons a l)
  then have p: "prefix needle (a # l)" by (metis prefixI)
  show ?thesis unfolding Cons using p by simp
qed

lemma extract_loop_first:
  assumes "py_int S = Some n" "CHR ''#'' \<notin> set S" "CHR ''.'' \<notin> set S"
  shows "extract_loop
           (\<lparr>ad_description =
               Some (''Project Gutenberg eBook #'' @ S @ ''. ''
                     @ ''Downloaded from https://www.gutenberg.org/ebooks/'' @ S),
             ad_type = ty\<rparr> # ds) = Some n"
proof -
  define Q where "Q = '' Downloaded from https://www.gutenberg.org/ebooks/''"
  define desc where "desc = ''Project Gutenberg eBook #'' @ S @ ''. ''
                     @ ''Downloaded from https://www.gutenberg.org/ebooks/'' @ S"
  have c: "py_contains ''Project Gutenberg eBook #'' desc"
    unfolding desc_def by (rule py_contains_prefix)
  have d1: "desc = ''Project Gutenberg eBook '' @ CHR ''#'' # (S @ CHR ''.'' # Q @ S)"
    by (simp add: desc_def Q_def)
  have nq: "CHR ''#'' \<notin> set Q" "CHR ''.'' \<notin> set ''Project Gutenberg eBook ''"
    by (simp_all add: Q_def)
  have na: "CHR ''#'' \<notin> set ''Project Gutenberg eBook ''" by simp
  have nb: "CHR ''#'' \<notin> set (S @ CHR ''.'' # Q @ S)" using assms(2) nq by simp
  have s1: "py_split (CHR ''#'') desc = [''Project Gutenberg eBook '', S @ CHR ''.'' # Q @ S]"
    unfolding d1 using py_split_first[OF na] py_split_none[OF nb] by simp
  obtain ps where s2: "py_split (CHR ''.'') (S @ CHR ''.'' # Q @ S) = S # ps"
    using py_split_first[OF assms(3)] by blast
  show ?thesis
    unfolding desc_def[symmetric]
    by (simp add: c s1 s2 assms(1))
qed

lemma py_str_no_hash: "CHR ''#'' \<notin> set (py_str n)"
proof
  assume "CHR ''#'' \<in> set (py_str n)"
  from py_str_chars[OF this] show False by (simp add: is_digit_def)
qed

lemma py_str_no_dot: "CHR ''.'' \<notin> set (py_str n)"
proof
  assume "CHR ''.'' \<in> set (py_str n)"
  from py_str_chars[OF this] show False by (simp add: is_digit_def)
qed

lemma md_additional_descriptions_create:
  "md_additional_descriptions (create_metadata self bm) =
     [\<lparr>ad_description = Some (additional_description bm), ad_type = ''other''\<rparr>]"
  by (simp add: create_metadata_def Let_def)

text \<open>
  Claim C1. For a book with the numeric identifier \<open>n\<close>, the target metadata carries one
  additional description whose text contains \<open>#\<close>, the decimal form of \<open>n\<close> and \<open>.\<close> in
  a row, and \<open>extract_gutenberg_id\<close> returns \<open>n\<close> for every record with these additional
  descriptions: the text between the first \<open>#\<close> and the next \<open>.\<close> is the decimal form of
  \<open>n\<close>, which \<open>int\<close> reads back.
\<close>

theorem gutenberg_id_roundtrip:
  "book_id bm = Some n \<longrightarrow>
     (\<exists>pre post. md_additional_descriptions (create_metadata self bm) =
        [\<lparr>ad_description = Some (pre @ ''#'' @ py_str n @ ''.'' @ post), ad_type = ''other''\<rparr>])
     \<and> py_int (py_str n) = Some n
     \<and> (\<forall>r md. rec_metadata r = Some md
            \<and> md_additional_descriptions md
                = md_additional_descriptions (create_metadata self bm)
            \<longrightarrow> extract_gutenberg_id r = Some n)
     \<and> extract_gutenberg_id \<lparr>rec_id = rid, rec_metadata = Some (create_metadata self bm)\<rparr>
         = Some n"
proof
  assume bid: "book_id bm = Some n"
  have ad: "additional_description bm =
      ''Project Gutenberg eBook #'' @ py_str n @ ''. ''
        @ ''Downloaded from https://www.gutenberg.org/ebooks/'' @ py_str n"
    by (simp add: additional_description_def fmt_id_def bid)
  have "additional_description bm =
      ''Project Gutenberg eBook '' @ ''#'' @ py_str n @ ''.''
        @ ('' Downloaded from https://www.gutenberg.org/ebooks/'' @ py_str n)"
    by (simp add: ad)
  then have a: "\<exists>pre post. md_additional_descriptions (create_metadata self bm) =
        [\<lparr>ad_description = Some (pre @ ''#'' @ py_str n @ ''.'' @ post), ad_type = ''other''\<rparr>]"
    unfolding md_additional_descriptions_create by blast
  have ex: "extract_loop (md_additional_descriptions (create_metadata self bm)) = Some n"
    unfolding md_additional_descriptions_create ad
    by (rule extract_loop_first) (rule py_int_py_str py_str_no_hash py_str_no_dot)+
  have b: "\<forall>r md. rec_metadata r = Some md
            \<and> md_additional_descriptions md
                = md_additional_descriptions (create_metadata self bm)
            \<longrightarrow> extract_gutenberg_id r = Some n"
    using ex by (simp add: extract_gutenberg_id_def)
  have c: "extract_gutenberg_id \<lparr>rec_id = rid, rec_metadata = Some (create_metadata self bm)\<rparr>
         = Some n"
    using ex by (simp add: extract_gutenberg_id_def)
  from a b c py_int_py_str[of n]
  show "(\<exists>pre post. md_additional_descriptions (create_metadata self bm) =
        [\<lparr>ad_description = Some (pre @ ''#'' @ py_str n @ ''.'' @ post), ad_type = ''other''\<rparr>])
     \<and> py_int (py_str n) = Some n
     \<and> (\<forall>r md. rec_metadata r = Some md
            \<and> md_additional_descriptions md
                = md_additional_descriptions (create_metadata self bm)
            \<longrightarrow> extract_gutenberg_id r = Some n)
     \<and> extract_gutenberg_id \<lparr>rec_id = rid, rec_metadata = Some (create_metadata self bm)\<rparr>
         = Some n"
    by (intro conjI)
qed

theorem gutenberg_id_roundtrip_witness:
  "book_id demo_book = Some 84
   \<and> py_str 84 = ''84''
   \<and> additional_description demo_book =
       ''Project Gutenberg eBook #84. Downloaded from https://www.gutenberg.org/ebooks/84''
   \<and> extract_gutenberg_id
        \<lparr>rec_id = None, rec_metadata = Some (create_metadata demo_uploader demo_book)\<rparr>
       = Some 84"
proof -
  have b: "book_id demo_book = Some 84" by (simp add: demo_book_def)
  have s: "py_str 84 = ''84''" by code_simp
  have d: "additional_description demo_book =
       ''Project Gutenberg eBook #84. Downloaded from https://www.gutenberg.org/ebooks/84''"
    by (simp add: additional_description_def fmt_id_def b s)
  from gutenberg_id_roundtrip [of demo_book 84 demo_uploader None] b
  have "extract_gutenberg_id
        \<lparr>rec_id = None, rec_metadata = Some (create_metadata demo_uploader demo_book)\<rparr>
       = Some 84"
    by blast
  with b s d show ?thesis by (intro conjI)
qed

section \<open>Properties of \<open>sanitize_filename\<close>\<close>

lemma set_collapse_ws: "set (collapse_ws s) \<subseteq> insert (CHR ''_'') (set s)"
proof (induction s rule: collapse_ws.induct)
  case 1
  then show ?case by simp
next
  case (2 c cs)
  show ?case
  proof (cases "py_isspace c")
    case True
    have sub: "set (dropWhile py_isspace cs) \<subseteq> set cs"
      by (meson set_dropWhileD subsetI)
    from 2(1)[OF True] sub
    have ih: "set (collapse_ws (dropWhile py_isspace cs)) \<subseteq> insert (CHR ''_'') (set cs)"
      by blast
    have eq: "set (collapse_ws (c # cs)) =
        insert (CHR ''_'') (set (collapse_ws (dropWhile py_isspace cs)))"
      using True by simp
    have "set (c # cs) = insert c (set cs)" by simp
    with ih eq show ?thesis by blast
  next
    case False
    have eq: "set (collapse_ws (c # cs)) = insert c (set (collapse_ws cs))"
      using False by simp
    have "set (c # cs) = insert c (set cs)" by simp
    with 2(2)[OF False] eq show ?thesis by blast
  qed
qed

lemma set_py_strip_chars: "set (py_strip_chars P s) \<subseteq> set s"
proof
  fix x assume "x \<in> set (py_strip_chars P s)"
  then have "x \<in> set (dropWhile P (rev (dropWhile P s)))"
    by (simp add: py_strip_chars_def)
  then have "x \<in> set (dropWhile P s)" using set_dropWhileD by fastforce
  then show "x \<in> set s" by (rule set_dropWhileD)
qed

lemma py_strip_chars_hd: "py_strip_chars P s \<noteq> [] \<Longrightarrow> \<not> P (hd (py_strip_chars P s))"
proof -
  assume ne: "py_strip_chars P s \<noteq> []"
  let ?d = "dropWhile P s"
  have dne: "?d \<noteq> []"
  proof
    assume a: "?d = []"
    have "py_strip_chars P s = []" unfolding py_strip_chars_def a by simp
    with ne show False by simp
  qed
  then have h: "\<not> P (hd ?d)" by (rule hd_dropWhile)
  obtain x xs where d: "?d = x # xs" using dne by (cases ?d) auto
  with h have nx: "\<not> P x" by simp
  have "dropWhile P (rev xs @ [x]) = dropWhile P (rev xs) @ [x]"
    using nx by (simp add: dropWhile_append3)
  then have "py_strip_chars P s = x # rev (dropWhile P (rev xs))"
    by (simp add: py_strip_chars_def d)
  with nx show ?thesis by simp
qed

lemma py_strip_chars_last: "py_strip_chars P s \<noteq> [] \<Longrightarrow> \<not> P (last (py_strip_chars P s))"
proof -
  assume ne: "py_strip_chars P s \<noteq> []"
  let ?d = "dropWhile P (rev (dropWhile P s))"
  have dne: "?d \<noteq> []" using ne by (simp add: py_strip_chars_def)
  then have "\<not> P (hd ?d)" by (rule hd_dropWhile)
  moreover have "last (rev ?d) = hd ?d" using dne by (simp add: last_rev)
  ultimately show ?thesis by (simp add: py_strip_chars_def)
qed

lemma py_strip_chars_sublist: "sublist (py_strip_chars P s) s"
proof -
  have "suffix (dropWhile P (rev (dropWhile P s))) (rev (dropWhile P s))"
    by (rule suffix_dropWhile)
  then have "prefix (py_strip_chars P s) (dropWhile P s)"
    by (simp add: py_strip_chars_def suffix_to_prefix)
  moreover have "suffix (dropWhile P s) s" by (rule suffix_dropWhile)
  ultimately show ?thesis
    by (meson prefix_imp_sublist sublist_order.order_trans suffix_imp_sublist)
qed

lemma rsplit1_head_split:
  assumes "c \<in> set s"
  shows "\<exists>rest. s = rsplit1_head c s @ c # rest \<and> c \<notin> set rest"
proof -
  let ?r = "rev s"
  have cr: "c \<in> set ?r" using assms by simp
  have tw: "?r = takeWhile (\<lambda>x. x \<noteq> c) ?r @ dropWhile (\<lambda>x. x \<noteq> c) ?r" by simp
  have dne: "dropWhile (\<lambda>x. x \<noteq> c) ?r \<noteq> []"
    using cr by (simp add: dropWhile_eq_Nil_conv) 
  then have "hd (dropWhile (\<lambda>x. x \<noteq> c) ?r) = c"
    using hd_dropWhile[of "\<lambda>x. x \<noteq> c" ?r] by simp
  with dne have d: "dropWhile (\<lambda>x. x \<noteq> c) ?r = c # tl (dropWhile (\<lambda>x. x \<noteq> c) ?r)"
    by (cases "dropWhile (\<lambda>x. x \<noteq> c) ?r") auto
  have "rev ?r = rev (dropWhile (\<lambda>x. x \<noteq> c) ?r) @ rev (takeWhile (\<lambda>x. x \<noteq> c) ?r)"
    by (subst tw) (simp only: rev_append)
  also have "rev (dropWhile (\<lambda>x. x \<noteq> c) ?r) = rev (tl (dropWhile (\<lambda>x. x \<noteq> c) ?r)) @ [c]"
    by (subst d) simp
  finally have "s = rsplit1_head c s @ c # rev (takeWhile (\<lambda>x. x \<noteq> c) ?r)"
    using assms by (simp add: rsplit1_head_def)
  moreover have "c \<notin> set (rev (takeWhile (\<lambda>x. x \<noteq> c) ?r))"
    by (auto dest: set_takeWhileD)
  ultimately show ?thesis by blast
qed

lemma rsplit1_head_prefix: "prefix (rsplit1_head c s) s"
proof (cases "c \<in> set s")
  case True
  from rsplit1_head_split[OF True] show ?thesis by (metis prefixI)
next
  case False
  then show ?thesis by (simp add: rsplit1_head_def)
qed

lemma py_slice_to_prefix: "prefix (py_slice_to k xs) xs"
  by (simp add: py_slice_to_def take_is_prefix)

lemma py_slice_to_length: "0 \<le> k \<Longrightarrow> int (length (py_slice_to k xs)) \<le> k"
  by (simp add: py_slice_to_def)

lemma illegal_underscore: "\<not> illegal_char (CHR ''_'')"
  by (simp add: illegal_char_def)

lemma clean_title_legal: "c \<in> set (clean_title text) \<Longrightarrow> \<not> illegal_char c"
proof -
  assume "c \<in> set (clean_title text)"
  then have "c \<in> set (collapse_ws (filter (\<lambda>c. \<not> illegal_char c) text))"
    using set_py_strip_chars by (auto simp: clean_title_def)
  then have "c = CHR ''_'' \<or> c \<in> set (filter (\<lambda>c. \<not> illegal_char c) text)"
    using set_collapse_ws by blast
  then show ?thesis using illegal_underscore by auto
qed

lemma sanitize_prefix: "prefix (sanitize_filename text m) (clean_title text)"
proof (cases "int (length (clean_title text)) > m")
  case True
  have "prefix (rsplit1_head (CHR ''_'') (py_slice_to m (clean_title text)))
          (py_slice_to m (clean_title text))"
    by (rule rsplit1_head_prefix)
  also have "prefix \<dots> (clean_title text)" by (rule py_slice_to_prefix)
  finally show ?thesis using True by (simp add: sanitize_filename_def)
next
  case False
  then show ?thesis by (simp add: sanitize_filename_def)
qed

text \<open>
  Claim C2, as amended. For every title and every maximum length \<open>m\<close>, the result of
  \<open>sanitize_filename\<close> contains no character of the illegal class; it has length at most
  \<open>m\<close> when \<open>m\<close> is not negative; it never starts with \<open>.\<close> or \<open>_\<close>; when the
  cleaned title fits into \<open>m\<close> characters it is returned whole and does not end with
  \<open>.\<close> or \<open>_\<close>; and when it does not fit, the cut is made at the last \<open>_\<close> among its
  first \<open>m\<close> characters if there is one, and after exactly \<open>m\<close> characters otherwise.
\<close>

theorem sanitize_filename_amended:
  "(\<forall>c \<in> set (sanitize_filename raw m). \<not> illegal_char c)
   \<and> (0 \<le> m \<longrightarrow> int (length (sanitize_filename raw m)) \<le> m)
   \<and> (sanitize_filename raw m \<noteq> [] \<longrightarrow> \<not> sep_char (hd (sanitize_filename raw m)))
   \<and> (int (length (clean_title raw)) \<le> m \<longrightarrow>
        sanitize_filename raw m = clean_title raw
        \<and> (sanitize_filename raw m \<noteq> [] \<longrightarrow> \<not> sep_char (last (sanitize_filename raw m))))
   \<and> (int (length (clean_title raw)) > m \<longrightarrow>
        (if CHR ''_'' \<in> set (py_slice_to m (clean_title raw))
         then \<exists>rest. py_slice_to m (clean_title raw) = sanitize_filename raw m @ CHR ''_'' # rest
                     \<and> CHR ''_'' \<notin> set rest
         else sanitize_filename raw m = py_slice_to m (clean_title raw)))"
proof -
  define out where "out = sanitize_filename raw m"
  define t where "t = clean_title raw"
  define w where "w = py_slice_to m t"
  have pre: "prefix out t" unfolding out_def t_def by (rule sanitize_prefix)
  have c1: "\<forall>c \<in> set out. \<not> illegal_char c"
    using pre clean_title_legal unfolding t_def by (meson set_mono_prefix subsetD)
  have c2: "0 \<le> m \<longrightarrow> int (length out) \<le> m"
  proof
    assume m: "0 \<le> m"
    have "length (rsplit1_head (CHR ''_'') w) \<le> length w"
      using rsplit1_head_prefix by (simp add: prefix_length_le)
    moreover have "int (length w) \<le> m"
      unfolding w_def using m by (rule py_slice_to_length)
    ultimately show "int (length out) \<le> m"
      by (auto simp: out_def sanitize_filename_def Let_def w_def t_def)
  qed
  have c3: "out \<noteq> [] \<longrightarrow> \<not> sep_char (hd out)"
  proof
    assume ne: "out \<noteq> []"
    then have "t \<noteq> []" using pre by auto
    then have "\<not> sep_char (hd t)"
      unfolding t_def clean_title_def by (rule py_strip_chars_hd)
    moreover have "hd out = hd t" using pre ne by (auto simp: prefix_def)
    ultimately show "\<not> sep_char (hd out)" by simp
  qed
  have c4: "int (length t) \<le> m \<longrightarrow> out = t \<and> (out \<noteq> [] \<longrightarrow> \<not> sep_char (last out))"
  proof
    assume le: "int (length t) \<le> m"
    then have eq: "out = t" by (simp add: out_def sanitize_filename_def t_def)
    moreover have "t \<noteq> [] \<longrightarrow> \<not> sep_char (last t)"
      unfolding t_def clean_title_def using py_strip_chars_last by blast
    ultimately show "out = t \<and> (out \<noteq> [] \<longrightarrow> \<not> sep_char (last out))" by simp
  qed
  have c5: "int (length t) > m \<longrightarrow>
           (if CHR ''_'' \<in> set w
            then \<exists>rest. w = out @ CHR ''_'' # rest \<and> CHR ''_'' \<notin> set rest
            else out = w)"
  proof
    assume gt: "int (length t) > m"
    then have o: "out = rsplit1_head (CHR ''_'') w"
      by (simp add: out_def sanitize_filename_def t_def w_def)
    show "if CHR ''_'' \<in> set w
            then \<exists>rest. w = out @ CHR ''_'' # rest \<and> CHR ''_'' \<notin> set rest
            else out = w"
    proof (cases "CHR ''_'' \<in> set w")
      case True
      then show ?thesis using rsplit1_head_split[OF True] o by simp
    next
      case False
      then show ?thesis using o by (simp add: rsplit1_head_def)
    qed
  qed
  from c1 c2 c3 c4 c5 show ?thesis
    unfolding out_def t_def w_def by blast
qed

theorem sanitize_filename_amended_witness:
  "int (length (clean_title ''Moby  Dick: Or, The Whale?'')) > 12
   \<and> (0::int) \<le> 12
   \<and> int (length (sanitize_filename ''Moby  Dick: Or, The Whale?'' 12)) \<le> 12
   \<and> (\<exists>rest. py_slice_to 12 (clean_title ''Moby  Dick: Or, The Whale?'') =
          sanitize_filename ''Moby  Dick: Or, The Whale?'' 12 @ CHR ''_'' # rest
          \<and> CHR ''_'' \<notin> set rest)"
proof -
  have ct: "clean_title ''Moby  Dick: Or, The Whale?'' = ''Moby_Dick_Or,_The_Whale''"
    by code_simp
  have gt: "int (length (clean_title ''Moby  Dick: Or, The Whale?'')) > 12"
    unfolding ct by simp
  have mem: "CHR ''_'' \<in> set (py_slice_to 12 (clean_title ''Moby  Dick: Or, The Whale?''))"
    unfolding ct by (simp add: py_slice_to_def)
  have nn: "(0::int) \<le> 12" by simp
  from sanitize_filename_amended [of "''Moby  Dick: Or, The Whale?''" 12]
  have len: "(0::int) \<le> 12 \<longrightarrow>
      int (length (sanitize_filename ''Moby  Dick: Or, The Whale?'' 12)) \<le> 12"
    and cut: "int (length (clean_title ''Moby  Dick: Or, The Whale?'')) > 12 \<longrightarrow>
      (if CHR ''_'' \<in> set (py_slice_to 12 (clean_title ''Moby  Dick: Or, The Whale?''))
       then \<exists>rest. py_slice_to 12 (clean_title ''Moby  Dick: Or, The Whale?'') =
              sanitize_filename ''Moby  Dick: Or, The Whale?'' 12 @ CHR ''_'' # rest
              \<and> CHR ''_'' \<notin> set rest
       else sanitize_filename ''Moby  Dick: Or, The Whale?'' 12 =
              py_slice_to 12 (clean_title ''Moby  Dick: Or, The Whale?''))"
    by (rule conjunct1[OF conjunct2], rule conjunct2[OF conjunct2[OF conjunct2[OF conjunct2]]])
  from cut gt have "if CHR ''_'' \<in> set (py_slice_to 12 (clean_title ''Moby  Dick: Or, The Whale?''))
       then \<exists>rest. py_slice_to 12 (clean_title ''Moby  Dick: Or, The Whale?'') =
              sanitize_filename ''Moby  Dick: Or, The Whale?'' 12 @ CHR ''_'' # rest
              \<and> CHR ''_'' \<notin> set rest
       else sanitize_filename ''Moby  Dick: Or, The Whale?'' 12 =
              py_slice_to 12 (clean_title ''Moby  Dick: Or, The Whale?'')"
    by (rule mp)
  with mem have ex: "\<exists>rest. py_slice_to 12 (clean_title ''Moby  Dick: Or, The Whale?'') =
              sanitize_filename ''Moby  Dick: Or, The Whale?'' 12 @ CHR ''_'' # rest
              \<and> CHR ''_'' \<notin> set rest"
    by (simp only: if_True)
  from len nn have l: "int (length (sanitize_filename ''Moby  Dick: Or, The Whale?'' 12)) \<le> 12"
    by (rule mp)
  from gt nn l ex show ?thesis by (intro conjI)
qed

text \<open>
  Claim C2 as stated fails after a truncation: the result may end with the separator, and a
  title without a separator among its first \<open>m\<close> characters is cut inside a word.
\<close>

theorem sanitize_filename_counterexample:
  "sanitize_filename ''ab_ cd'' 4 = ''ab_'' \<and> sanitize_filename ''abcdef'' 3 = ''abc''"
  by code_simp

section \<open>Properties of \<open>strip_gutenberg_headers\<close>\<close>

lemma py_slice_whole: "py_slice 0 (length xs) xs = xs"
  by (simp add: py_slice_def)

lemma py_slice_sublist: "sublist (py_slice i j xs) xs"
proof -
  have "sublist (take (j - i) (drop i xs)) (drop i xs)" by (rule sublist_take)
  moreover have "sublist (drop i xs) xs" by (rule sublist_drop)
  ultimately show ?thesis unfolding py_slice_def by (rule sublist_order.order_trans)
qed

lemma first_some_SomeD:
  "first_some xs = Some v \<Longrightarrow> Some v \<in> set xs"
  by (induction xs rule: first_some.induct) auto

lemma match_here_length: "match_here p s = Some n \<Longrightarrow> n \<le> length s"
proof (induction p arbitrary: s n)
  case Nil
  then show ?case by simp
next
  case (Cons a p)
  show ?case
  proof (cases a)
    case (Lit c)
    with Cons.prems obtain x xs m where s: "s = x # xs" and m: "match_here p xs = Some m"
      and n: "n = Suc m"
      by (auto split: list.splits if_splits)
    from Cons.IH[OF m] have "m \<le> length xs" .
    then show ?thesis using s n by simp
  next
    case AnyPlus
    let ?k = "length (takeWhile (\<lambda>x. x \<noteq> CHR 0x0A) s)"
    from Cons.prems AnyPlus
    have "first_some (map (\<lambda>j. map_option (\<lambda>m. j + m) (match_here p (drop j s)))
                           (rev [1 ..< Suc ?k])) = Some n"
      by simp
    then have "Some n \<in> set (map (\<lambda>j. map_option (\<lambda>m. j + m) (match_here p (drop j s)))
                           (rev [1 ..< Suc ?k]))"
      by (rule first_some_SomeD)
    then obtain j where jin: "j \<in> set (rev [1 ..< Suc ?k])"
      and eq: "Some n = map_option (\<lambda>m. j + m) (match_here p (drop j s))"
      unfolding set_map by blast
    from jin have j: "1 \<le> j" "j \<le> ?k" by (simp_all del: upt_Suc)
    from eq obtain m where m: "match_here p (drop j s) = Some m" and n: "n = j + m"
      by (cases "match_here p (drop j s)") auto
    from Cons.IH[OF m] have "m \<le> length s - j" by simp
    moreover have "?k \<le> length s" by (rule length_takeWhile_le)
    ultimately show ?thesis using j n by simp
  qed
qed

lemma search_from_bounds:
  "search_from p i s = Some (a, b) \<Longrightarrow> i \<le> a \<and> a \<le> b \<and> b \<le> i + length s"
proof (induction s arbitrary: i)
  case Nil
  then show ?case by (auto split: option.splits dest: match_here_length)
next
  case (Cons x t)
  show ?case
  proof (cases "match_here p (x # t)")
    case None
    with Cons.prems have "search_from p (Suc i) t = Some (a, b)" by simp
    from Cons.IH[OF this] show ?thesis by simp
  next
    case (Some n)
    with Cons.prems have "a = i" "b = i + n" by simp_all
    moreover from match_here_length[OF Some] have "n \<le> length (x # t)" .
    ultimately show ?thesis by simp
  qed
qed

lemma re_search_bounds:
  "re_search p text = Some (a, b) \<Longrightarrow> a \<le> b \<and> b \<le> length text"
  unfolding re_search_def by (drule search_from_bounds) simp

lemma start_loop_bound: "d \<le> length text \<Longrightarrow> start_loop ms text d \<le> length text"
proof (induction ms)
  case Nil
  then show ?case by simp
next
  case (Cons m ms)
  then show ?case
    by (cases "re_search m text") (auto dest: re_search_bounds)
qed

lemma end_loop_bound: "d \<le> length text \<Longrightarrow> end_loop ms text d \<le> length text"
proof (induction ms)
  case Nil
  then show ?case by simp
next
  case (Cons m ms)
  then show ?case
    by (cases "re_search m text") (auto dest: re_search_bounds)
qed

text \<open>
  Claim C9. For every text the result of \<open>strip_gutenberg_headers\<close> is a contiguous part of
  the text: both offsets lie within the text and the result is the trimmed slice between
  them. When the end offset is at or before the start offset the result is empty. The
  function is total: no input makes it fail.
\<close>

theorem strip_gutenberg_headers_substring:
  "sublist (strip_gutenberg_headers text) text
   \<and> start_pos text \<le> length text \<and> end_pos text \<le> length text
   \<and> strip_gutenberg_headers text =
       py_strip (take (end_pos text - start_pos text) (drop (start_pos text) text))
   \<and> (end_pos text \<le> start_pos text \<longrightarrow> strip_gutenberg_headers text = [])"
proof (intro conjI impI)
  have "sublist (strip_gutenberg_headers text) (py_slice (start_pos text) (end_pos text) text)"
    unfolding strip_gutenberg_headers_def py_strip_def by (rule py_strip_chars_sublist)
  then show "sublist (strip_gutenberg_headers text) text"
    using py_slice_sublist by (rule sublist_order.order_trans)
  show "start_pos text \<le> length text"
    unfolding start_pos_def by (rule start_loop_bound) simp
  show "end_pos text \<le> length text"
    unfolding end_pos_def by (rule end_loop_bound) simp
  show "strip_gutenberg_headers text =
       py_strip (take (end_pos text - start_pos text) (drop (start_pos text) text))"
    by (simp add: strip_gutenberg_headers_def py_slice_def)
  assume "end_pos text \<le> start_pos text"
  then show "strip_gutenberg_headers text = []"
    by (simp add: strip_gutenberg_headers_def py_slice_def py_strip_def py_strip_chars_def)
qed


theorem strip_gutenberg_headers_substring_witness:
  "end_pos ''END OF THIS PROJECT GUTENBERG EBOOKSTART OF THIS PROJECT GUTENBERG EBOOK''
     \<le> start_pos ''END OF THIS PROJECT GUTENBERG EBOOKSTART OF THIS PROJECT GUTENBERG EBOOK''
   \<and> strip_gutenberg_headers
        ''END OF THIS PROJECT GUTENBERG EBOOKSTART OF THIS PROJECT GUTENBERG EBOOK'' = []"
proof -
  have e: "end_pos ''END OF THIS PROJECT GUTENBERG EBOOKSTART OF THIS PROJECT GUTENBERG EBOOK'' = 0"
    by code_simp
  have s: "start_pos ''END OF THIS PROJECT GUTENBERG EBOOKSTART OF THIS PROJECT GUTENBERG EBOOK'' = 72"
    by code_simp
  have le: "end_pos ''END OF THIS PROJECT GUTENBERG EBOOKSTART OF THIS PROJECT GUTENBERG EBOOK''
     \<le> start_pos ''END OF THIS PROJECT GUTENBERG EBOOKSTART OF THIS PROJECT GUTENBERG EBOOK''"
    unfolding e s by simp
  with strip_gutenberg_headers_substring
    [of "''END OF THIS PROJECT GUTENBERG EBOOKSTART OF THIS PROJECT GUTENBERG EBOOK''"]
  show ?thesis by blast
qed

section \<open>The matcher against the meaning of the patterns\<close>

lemma ascii_lower_map_of:
  "ascii_lower c = (case map_of letter_pairs c of Some l \<Rightarrow> l | None \<Rightarrow> c)"
  by (simp add: ascii_lower_def letter_pairs_def)

lemma letter_pairs_distinct_fst: "distinct (map fst letter_pairs)"
  by (simp add: letter_pairs_def)

lemma letter_pairs_distinct_snd: "distinct (map snd letter_pairs)"
  by (simp add: letter_pairs_def)

lemma letter_pairs_disjoint: "set (map fst letter_pairs) \<inter> set (map snd letter_pairs) = {}"
  by (simp add: letter_pairs_def)

lemma letter_pairs_snd_unique:
  assumes "(a, l) \<in> set letter_pairs" "(b, l) \<in> set letter_pairs"
  shows "a = b"
proof -
  have "distinct (map fst (map (\<lambda>(u, v). (v, u)) letter_pairs))"
    using letter_pairs_distinct_snd by (simp add: comp_def case_prod_unfold)
  moreover have "(l, a) \<in> set (map (\<lambda>(u, v). (v, u)) letter_pairs)"
    "(l, b) \<in> set (map (\<lambda>(u, v). (v, u)) letter_pairs)"
    using assms by force+
  ultimately show ?thesis by (rule eq_key_imp_eq_value)
qed

lemma ascii_lower_upper: "(u, l) \<in> set letter_pairs \<Longrightarrow> ascii_lower u = l"
  using letter_pairs_distinct_fst by (simp add: ascii_lower_map_of)

lemma ascii_lower_lower: "(u, l) \<in> set letter_pairs \<Longrightarrow> ascii_lower l = l"
proof -
  assume a: "(u, l) \<in> set letter_pairs"
  then have "l \<in> set (map snd letter_pairs)" by force
  with letter_pairs_disjoint have "l \<notin> set (map fst letter_pairs)" by blast
  then have "map_of letter_pairs l = None" by (simp add: map_of_eq_None_iff)
  then show ?thesis by (simp add: ascii_lower_map_of)
qed

lemma ascii_lower_cases:
  "ascii_lower c = c \<or> (c, ascii_lower c) \<in> set letter_pairs"
  by (cases "map_of letter_pairs c") (auto simp: ascii_lower_map_of dest: map_of_SomeD)

lemma ci_eq_same_letter: "ci_eq p x \<longleftrightarrow> same_letter p x"
proof
  assume "ci_eq p x"
  then have e: "ascii_lower p = ascii_lower x" by (simp add: ci_eq_def)
  show "same_letter p x"
  proof (cases "ascii_lower p = p")
    case True
    show ?thesis
    proof (cases "ascii_lower x = x")
      case True
      with \<open>ascii_lower p = p\<close> e show ?thesis by (simp add: same_letter_def)
    next
      case False
      with ascii_lower_cases[of x] have "(x, ascii_lower x) \<in> set letter_pairs" by simp
      with True e show ?thesis by (simp add: same_letter_def)
    qed
  next
    case False
    with ascii_lower_cases[of p] have pp: "(p, ascii_lower p) \<in> set letter_pairs" by simp
    show ?thesis
    proof (cases "ascii_lower x = x")
      case True
      with pp e show ?thesis by (simp add: same_letter_def)
    next
      case False
      with ascii_lower_cases[of x] have "(x, ascii_lower x) \<in> set letter_pairs" by simp
      with pp e have "p = x" by (auto intro: letter_pairs_snd_unique)
      then show ?thesis by (simp add: same_letter_def)
    qed
  qed
next
  assume "same_letter p x"
  then consider "p = x" | "(p, x) \<in> set letter_pairs" | "(x, p) \<in> set letter_pairs"
    by (auto simp: same_letter_def)
  then show "ci_eq p x"
  proof cases
    case 1
    then show ?thesis by (simp add: ci_eq_def)
  next
    case 2
    then show ?thesis by (simp add: ci_eq_def ascii_lower_upper ascii_lower_lower)
  next
    case 3
    then show ?thesis by (simp add: ci_eq_def ascii_lower_upper ascii_lower_lower)
  qed
qed

lemma takeWhile_length_iff:
  "j \<le> length (takeWhile P s) \<longleftrightarrow> j \<le> length s \<and> (\<forall>x \<in> set (take j s). P x)"
proof (induction s arbitrary: j)
  case Nil
  show ?case by simp
next
  case (Cons a s)
  show ?case
  proof (cases j)
    case 0
    then show ?thesis by simp
  next
    case (Suc k)
    then show ?thesis using Cons[of k] by simp
  qed
qed

lemma rx_matches_AnyPlus:
  "rx_matches (AnyPlus # r) w \<longleftrightarrow>
     (\<exists>n. 1 \<le> n \<and> n \<le> length w \<and> CHR 0x0A \<notin> set (take n w) \<and> rx_matches r (drop n w))"
  by (auto simp: list_ex_iff simp del: upt_Suc) 

lemma match_here_sound: "match_here p s = Some n \<Longrightarrow> rx_matches p (take n s)"
proof (induction p arbitrary: s n)
  case Nil
  then show ?case by simp
next
  case (Cons a p)
  show ?case
  proof (cases a)
    case (Lit c)
    with Cons.prems obtain x xs m where s: "s = x # xs" and c: "ci_eq c x"
      and m: "match_here p xs = Some m" and n: "n = Suc m"
      by (auto split: list.splits if_splits)
    from Cons.IH[OF m] c show ?thesis using s n Lit by (simp add: ci_eq_same_letter)
  next
    case AnyPlus
    let ?k = "length (takeWhile (\<lambda>x. x \<noteq> CHR 0x0A) s)"
    let ?f = "\<lambda>j. map_option (\<lambda>m. j + m) (match_here p (drop j s))"
    from Cons.prems AnyPlus
    have "first_some (map ?f (rev [1 ..< Suc ?k])) = Some n" by simp
    then have "Some n \<in> set (map ?f (rev [1 ..< Suc ?k]))" by (rule first_some_SomeD)
    then obtain j where jin: "j \<in> set (rev [1 ..< Suc ?k])" and eq: "Some n = ?f j"
      unfolding set_map by blast
    from jin have j: "1 \<le> j" "j \<le> ?k" by (simp_all del: upt_Suc)
    from eq obtain m where m: "match_here p (drop j s) = Some m" and n: "n = j + m"
      by (cases "match_here p (drop j s)") auto
    from j(2) have js: "j \<le> length s" and nonl: "\<forall>x \<in> set (take j s). x \<noteq> CHR 0x0A"
      by (simp_all add: takeWhile_length_iff)
    from match_here_length[OF m] have ml: "m \<le> length s - j" by simp
    have d: "drop j (take n s) = take m (drop j s)" by (simp add: n drop_take)
    have t: "take j (take n s) = take j s" using n by (simp add: min_def)
    have "rx_matches p (drop j (take n s))" unfolding d by (rule Cons.IH[OF m])
    moreover have "CHR 0x0A \<notin> set (take j (take n s))" unfolding t using nonl by blast
    moreover have "j \<le> length (take n s)" using js n ml by simp
    ultimately show ?thesis unfolding AnyPlus rx_matches_AnyPlus using j(1) by blast
  qed
qed


lemma first_some_None_iff: "first_some xs = None \<longleftrightarrow> (\<forall>x \<in> set xs. x = None)"
  by (induction xs rule: first_some.induct) auto

lemma first_some_descending:
  "first_some (map f (rev [a ..< b])) = Some v \<Longrightarrow>
   \<exists>j. a \<le> j \<and> j < b \<and> f j = Some v \<and> (\<forall>j'. j < j' \<and> j' < b \<longrightarrow> f j' = None)"
proof (induction b)
  case 0
  then show ?case by simp
next
  case (Suc b)
  show ?case
  proof (cases "a \<le> b")
    case False
    with Suc.prems show ?thesis by simp
  next
    case True
    then have r: "rev [a ..< Suc b] = b # rev [a ..< b]" by simp
    show ?thesis
    proof (cases "f b")
      case None
      with Suc.prems r have "first_some (map f (rev [a ..< b])) = Some v" by simp
      from Suc.IH[OF this] obtain j where j: "a \<le> j" "j < b" "f j = Some v"
        and o: "\<forall>j'. j < j' \<and> j' < b \<longrightarrow> f j' = None"
        by blast
      have "\<forall>j'. j < j' \<and> j' < Suc b \<longrightarrow> f j' = None"
        using o None by (auto simp: less_Suc_eq)
      with j show ?thesis by (intro exI[of _ j]) simp
    next
      case (Some u)
      with Suc.prems r have "u = v" by simp
      with Some True show ?thesis by (intro exI[of _ b]) auto
    qed
  qed
qed

lemma match_here_complete:
  "n \<le> length s \<Longrightarrow> rx_matches p (take n s) \<Longrightarrow> \<exists>m. match_here p s = Some m"
proof (induction p arbitrary: s n)
  case Nil
  show ?case by simp
next
  case (Cons a p)
  show ?case
  proof (cases a)
    case (Lit c)
    with Cons.prems(2) obtain x xs where tk: "take n s = x # xs" and c: "same_letter c x"
      and r: "rx_matches p xs"
      by (auto split: list.splits)
    from tk obtain k where n: "n = Suc k" by (cases n) simp_all
    from tk n obtain s' where s: "s = x # s'" and xs: "xs = take k s'" by (cases s) simp_all
    have kl: "k \<le> length s'" using Cons.prems(1) n s by simp
    have "rx_matches p (take k s')" using r xs by simp
    from Cons.IH[OF kl this] obtain m where "match_here p s' = Some m" ..
    then show ?thesis using Lit s c by (simp add: ci_eq_same_letter)
  next
    case AnyPlus
    let ?k = "length (takeWhile (\<lambda>x. x \<noteq> CHR 0x0A) s)"
    let ?f = "\<lambda>j. map_option (\<lambda>m. j + m) (match_here p (drop j s))"
    from Cons.prems(2)[unfolded AnyPlus rx_matches_AnyPlus]
    obtain j where j: "1 \<le> j" "j \<le> length (take n s)"
      and nonl: "CHR 0x0A \<notin> set (take j (take n s))"
      and r: "rx_matches p (drop j (take n s))"
      by blast
    from j(2) Cons.prems(1) have jn: "j \<le> n" and js: "j \<le> length s" by simp_all
    have t: "take j (take n s) = take j s" using jn by (simp add: min_def)
    have d: "drop j (take n s) = take (n - j) (drop j s)" by (simp add: drop_take)
    have "n - j \<le> length (drop j s)" using Cons.prems(1) by simp
    have "rx_matches p (take (n - j) (drop j s))" using r d by simp
    from Cons.IH[OF \<open>n - j \<le> length (drop j s)\<close> this]
    obtain m where m: "match_here p (drop j s) = Some m" ..
    have "\<forall>x \<in> set (take j s). x \<noteq> CHR 0x0A" using nonl t by auto
    with js have "j \<le> ?k" by (simp add: takeWhile_length_iff)
    with j(1) have "j \<in> set (rev [1 ..< Suc ?k])" by (simp del: upt_Suc)
    then have mem: "?f j \<in> set (map ?f (rev [1 ..< Suc ?k]))"
      unfolding set_map by (rule imageI)
    have fj: "?f j \<noteq> None" using m by simp
    have "first_some (map ?f (rev [1 ..< Suc ?k])) \<noteq> None"
    proof
      assume "first_some (map ?f (rev [1 ..< Suc ?k])) = None"
      then have "\<forall>x \<in> set (map ?f (rev [1 ..< Suc ?k])). x = None"
        by (simp only: first_some_None_iff)
      then have "?f j = None" using mem by (rule bspec)
      with fj show False by simp
    qed
    then obtain v where "first_some (map ?f (rev [1 ..< Suc ?k])) = Some v"
      by (cases "first_some (map ?f (rev [1 ..< Suc ?k]))") simp_all
    then have "match_here (AnyPlus # p) s = Some v" by simp
    then show ?thesis unfolding AnyPlus ..
  qed
qed

lemma rx_matches_lits_length:
  "AnyPlus \<notin> set r \<Longrightarrow> rx_matches r w \<Longrightarrow> length w = length r"
proof (induction r arbitrary: w)
  case Nil
  then show ?case by simp
next
  case (Cons a r)
  then obtain c where a: "a = Lit c" by (cases a) auto
  with Cons.prems(2) obtain x xs where w: "w = x # xs" and r: "rx_matches r xs"
    by (auto split: list.splits)
  from Cons.IH[OF _ r] Cons.prems(1) show ?case using w by simp
qed

lemma match_here_maximal:
  "simple p \<Longrightarrow> match_here p s = Some n \<Longrightarrow> n' \<le> length s \<Longrightarrow> rx_matches p (take n' s)
   \<Longrightarrow> n' \<le> n"
proof (induction p arbitrary: s n n')
  case Nil
  then show ?case by auto
next
  case (Cons a p)
  show ?case
  proof (cases a)
    case (Lit c)
    with Cons.prems(2) obtain x xs m where s: "s = x # xs"
      and m: "match_here p xs = Some m" and n: "n = Suc m"
      by (auto split: list.splits if_splits)
    have rl: "rx_matches (Lit c # p) (take n' (x # xs))"
      using Cons.prems(4) unfolding Lit s .
    then obtain k where n': "n' = Suc k" by (cases n') simp_all
    from rl have r: "rx_matches p (take k xs)" unfolding n' by simp
    have sp: "simple p" using Cons.prems(1) Lit by simp
    have "k \<le> length xs" using Cons.prems(3) n' s by simp
    from Cons.IH[OF sp m this r] show ?thesis using n n' by simp
  next
    case AnyPlus
    let ?k = "length (takeWhile (\<lambda>x. x \<noteq> CHR 0x0A) s)"
    let ?f = "\<lambda>j. map_option (\<lambda>m. j + m) (match_here p (drop j s))"
    have lits: "AnyPlus \<notin> set p" using Cons.prems(1) AnyPlus by simp
    from Cons.prems(2) AnyPlus
    have "first_some (map ?f (rev [1 ..< Suc ?k])) = Some n" by simp
    from first_some_descending[OF this] obtain j where
      jj: "1 \<le> j \<and> j < Suc ?k \<and> ?f j = Some n
           \<and> (\<forall>j'. j < j' \<and> j' < Suc ?k \<longrightarrow> ?f j' = None)" ..
    note j = jj[THEN conjunct1] jj[THEN conjunct2, THEN conjunct1]
    note fj = jj[THEN conjunct2, THEN conjunct2, THEN conjunct1]
    note above = jj[THEN conjunct2, THEN conjunct2, THEN conjunct2]
    from fj obtain m where m: "match_here p (drop j s) = Some m" and n: "n = j + m"
      by (cases "match_here p (drop j s)") auto
    have ml: "m = length p"
      using rx_matches_lits_length[OF lits match_here_sound[OF m]] match_here_length[OF m]
      by simp
    from Cons.prems(4)[unfolded AnyPlus rx_matches_AnyPlus]
    obtain j' where j': "1 \<le> j'" "j' \<le> length (take n' s)"
      and nonl: "CHR 0x0A \<notin> set (take j' (take n' s))"
      and r: "rx_matches p (drop j' (take n' s))"
      by blast
    from j'(2) Cons.prems(3) have jn: "j' \<le> n'" and js: "j' \<le> length s" by simp_all
    have t: "take j' (take n' s) = take j' s" using jn by (simp add: min_def)
    have d: "drop j' (take n' s) = take (n' - j') (drop j' s)" by (simp add: drop_take)
    have nl: "n' - j' \<le> length (drop j' s)" using Cons.prems(3) by simp
    have r': "rx_matches p (take (n' - j') (drop j' s))" using r d by simp
    have "length (take (n' - j') (drop j' s)) = n' - j'" using nl by simp
    with rx_matches_lits_length[OF lits r'] have len: "n' - j' = length p" by simp
    from match_here_complete[OF nl r'] obtain m' where "match_here p (drop j' s) = Some m'" ..
    then have fj': "?f j' \<noteq> None" by simp
    have "\<forall>x \<in> set (take j' s). x \<noteq> CHR 0x0A" using nonl t by auto
    with js have "j' \<le> ?k" by (simp add: takeWhile_length_iff)
    then have lt: "j' < Suc ?k" by simp
    have "\<not> j < j'"
    proof
      assume "j < j'"
      with lt have "j < j' \<and> j' < Suc ?k" by simp
      with above[rule_format, of j'] have "?f j' = None" .
      with fj' show False by simp
    qed
    then show ?thesis using n ml len jn by simp
  qed
qed

lemma search_from_None:
  "search_from p i s = None \<Longrightarrow> d \<le> length s \<Longrightarrow> match_here p (drop d s) = None"
proof (induction s arbitrary: i d)
  case Nil
  then show ?case by (simp split: option.splits)
next
  case (Cons x t)
  from Cons.prems(1) have h: "match_here p (x # t) = None" and r: "search_from p (Suc i) t = None"
    by (simp_all split: option.splits)
  show ?case
  proof (cases d)
    case 0
    then show ?thesis using h by simp
  next
    case (Suc k)
    then show ?thesis using Cons.IH[OF r, of k] Cons.prems(2) by simp
  qed
qed

lemma search_from_Some:
  "search_from p i s = Some (a, b) \<Longrightarrow>
   \<exists>d n. d \<le> length s \<and> a = i + d \<and> b = a + n \<and> match_here p (drop d s) = Some n
         \<and> (\<forall>d' < d. match_here p (drop d' s) = None)"
proof (induction s arbitrary: i)
  case Nil
  then show ?case by (auto split: option.splits)
next
  case (Cons x t)
  show ?case
  proof (cases "match_here p (x # t)")
    case (Some n)
    with Cons.prems have "a = i" "b = i + n" by simp_all
    with Some show ?thesis by (intro exI[of _ 0] exI[of _ n]) simp
  next
    case None
    with Cons.prems have "search_from p (Suc i) t = Some (a, b)" by simp
    from Cons.IH[OF this] obtain d n where d: "d \<le> length t" "a = Suc i + d" "b = a + n"
      "match_here p (drop d t) = Some n" and o: "\<forall>d' < d. match_here p (drop d' t) = None"
      by blast
    have "\<forall>d' < Suc d. match_here p (drop d' (x # t)) = None"
    proof (intro allI impI)
      fix d' assume "d' < Suc d"
      then show "match_here p (drop d' (x # t)) = None"
        using None o by (cases d') auto
    qed
    with d show ?thesis by (intro exI[of _ "Suc d"] exI[of _ n]) simp
  qed
qed

lemma found_iff: "found p text \<longleftrightarrow> (\<exists>i j. occurs p text i j)"
proof
  assume "found p text"
  then show "\<exists>i j. occurs p text i j" by (auto simp: found_def list_ex_iff)
next
  assume "\<exists>i j. occurs p text i j"
  then obtain i j where o: "occurs p text i j" by blast
  then have "i \<le> j" "j \<le> length text" by (simp_all add: occurs_def)
  then have "i \<in> set [0 ..< Suc (length text)]" "j \<in> set [i ..< Suc (length text)]"
    by (simp_all del: upt_Suc)
  with o show "found p text" unfolding found_def list_ex_iff by blast
qed

lemma leftmost_longest_iff:
  "leftmost_longest p text i j \<longleftrightarrow>
     occurs p text i j \<and> (\<forall>i' j'. occurs p text i' j' \<longrightarrow> i < i' \<or> (i' = i \<and> j' \<le> j))"
proof -
  have b: "occurs p text i' j' \<Longrightarrow>
      i' \<in> set [0 ..< Suc (length text)] \<and> j' \<in> set [0 ..< Suc (length text)]" for i' j'
    by (simp add: occurs_def del: upt_Suc)
  show ?thesis unfolding leftmost_longest_def list_all_iff using b by blast
qed

lemma re_search_None_not_found: "re_search p text = None \<Longrightarrow> \<not> found p text"
proof
  assume n: "re_search p text = None" and "found p text"
  then obtain i j where o: "occurs p text i j" unfolding found_iff by blast
  then have b: "i \<le> j" "j \<le> length text"
    and r: "rx_matches p (take (j - i) (drop i text))"
    by (simp_all add: occurs_def)
  have "j - i \<le> length (drop i text)" using b by simp
  from match_here_complete[OF this r] obtain m where "match_here p (drop i text) = Some m" by blast
  moreover have "match_here p (drop i text) = None"
    using n b by (intro search_from_None[of p 0 "text"]) (simp_all add: re_search_def)
  ultimately show False by simp
qed

lemma re_search_Some_leftmost_longest:
  assumes "simple p" "re_search p text = Some (a, b)"
  shows "leftmost_longest p text a b"
proof -
  from assms(2) have "search_from p 0 text = Some (a, b)" by (simp add: re_search_def)
  from search_from_Some[OF this] obtain n where a: "a \<le> length text" and b: "b = a + n"
    and m: "match_here p (drop a text) = Some n"
    and o: "\<forall>d' < a. match_here p (drop d' text) = None"
    by auto
  from match_here_length[OF m] have nl: "n \<le> length text - a" by simp
  have occ: "occurs p text a b"
    using match_here_sound[OF m] a b nl by (simp add: occurs_def)
  have "i < i' \<or> (i' = a \<and> j' \<le> b)" if oc: "occurs p text i' j'" and i: "i = a" for i i' j'
  proof -
    from oc have bb: "i' \<le> j'" "j' \<le> length text"
      and r: "rx_matches p (take (j' - i') (drop i' text))"
      by (simp_all add: occurs_def)
    have l: "j' - i' \<le> length (drop i' text)" using bb by simp
    from match_here_complete[OF l r] obtain k where k: "match_here p (drop i' text) = Some k" by blast
    with o have "\<not> i' < a" by auto
    moreover have "j' \<le> b" if "i' = a"
    proof -
      from match_here_maximal[OF assms(1) m] l r that have "j' - a \<le> n" by simp
      then show ?thesis using b by simp
    qed
    ultimately show ?thesis using i by auto
  qed
  with occ show ?thesis unfolding leftmost_longest_iff by blast
qed

lemma found_iff_re_search: "found p text \<longleftrightarrow> re_search p text \<noteq> None"
proof
  assume "found p text"
  then show "re_search p text \<noteq> None" using re_search_None_not_found by blast
next
  assume "re_search p text \<noteq> None"
  then obtain a b where "re_search p text = Some (a, b)" by auto
  then have "search_from p 0 text = Some (a, b)" by (simp add: re_search_def)
  from search_from_Some[OF this] obtain n where a: "a \<le> length text" and b: "b = a + n"
    and m: "match_here p (drop a text) = Some n"
    by auto
  from match_here_length[OF m] have nl: "n \<le> length text - a" by simp
  have "occurs p text a b"
    using match_here_sound[OF m] a b nl by (simp add: occurs_def)
  then show "found p text" unfolding found_iff by blast
qed


lemma markers_simple: "\<forall>m \<in> set start_markers. simple m" "\<forall>m \<in> set end_markers. simple m"
  by (simp_all add: start_markers_def end_markers_def lits_def)

lemma start_loop_spec:
  assumes "\<forall>m \<in> set ms. simple m"
  shows "case find (\<lambda>m. found m text) ms of
           None \<Rightarrow> start_loop ms text d = d
         | Some m \<Rightarrow> \<exists>i j. leftmost_longest m text i j \<and> start_loop ms text d = j"
  using assms
proof (induction ms)
  case Nil
  show ?case by simp
next
  case (Cons m ms)
  show ?case
  proof (cases "re_search m text")
    case None
    then have "\<not> found m text" by (rule re_search_None_not_found)
    then show ?thesis using None Cons by (auto split: option.splits)
  next
    case (Some ab)
    obtain a b where ab: "ab = (a, b)" by (cases ab)
    have s: "simple m" using Cons.prems by simp
    have f: "found m text" using Some by (simp add: found_iff_re_search)
    have "leftmost_longest m text a b"
      using s Some unfolding ab by (rule re_search_Some_leftmost_longest)
    then show ?thesis using f Some ab by auto
  qed
qed

lemma end_loop_spec:
  assumes "\<forall>m \<in> set ms. simple m"
  shows "case find (\<lambda>m. found m text) ms of
           None \<Rightarrow> end_loop ms text d = d
         | Some m \<Rightarrow> \<exists>i j. leftmost_longest m text i j \<and> end_loop ms text d = i"
  using assms
proof (induction ms)
  case Nil
  show ?case by simp
next
  case (Cons m ms)
  show ?case
  proof (cases "re_search m text")
    case None
    then have "\<not> found m text" by (rule re_search_None_not_found)
    then show ?thesis using None Cons by (auto split: option.splits)
  next
    case (Some ab)
    obtain a b where ab: "ab = (a, b)" by (cases ab)
    have s: "simple m" using Cons.prems by simp
    have f: "found m text" using Some by (simp add: found_iff_re_search)
    have "leftmost_longest m text a b"
      using s Some unfolding ab by (rule re_search_Some_leftmost_longest)
    then show ?thesis using f Some ab by auto
  qed
qed

lemma find_None_all: "find P xs = None \<longleftrightarrow> (\<forall>x \<in> set xs. \<not> P x)"
  by (auto simp: find_None_iff)

text \<open>
  Claim C3. For every text, \<open>strip_gutenberg_headers\<close> returns the whitespace-trimmed slice
  of the text from the start offset to the end offset. The start offset is decided by the
  first start marker, in list order, that matches somewhere in the text, letters compared
  without regard to case: it is the end of that marker's leftmost match (the longest one
  from that start), and 0 when no start marker matches. The end offset is decided in the
  same way and on its own by the end markers: it is the start of the leftmost match of the
  first end marker that matches, and the length of the text when none does. A text in
  which no marker matches is returned whole, trimmed.
\<close>

theorem strip_gutenberg_headers_spec:
  "strip_gutenberg_headers text = py_strip (py_slice (start_pos text) (end_pos text) text)
   \<and> (case find (\<lambda>m. found m text) start_markers of
         None \<Rightarrow> start_pos text = 0
       | Some m \<Rightarrow> \<exists>i j. leftmost_longest m text i j \<and> start_pos text = j)
   \<and> (case find (\<lambda>m. found m text) end_markers of
         None \<Rightarrow> end_pos text = length text
       | Some m \<Rightarrow> \<exists>i j. leftmost_longest m text i j \<and> end_pos text = i)
   \<and> ((\<forall>m \<in> set start_markers. \<not> found m text)
        \<and> (\<forall>m \<in> set end_markers. \<not> found m text)
        \<longrightarrow> strip_gutenberg_headers text = py_strip text)"
proof (intro conjI impI)
  show eq: "strip_gutenberg_headers text =
      py_strip (py_slice (start_pos text) (end_pos text) text)"
    by (simp add: strip_gutenberg_headers_def)
  show s: "case find (\<lambda>m. found m text) start_markers of
         None \<Rightarrow> start_pos text = 0
       | Some m \<Rightarrow> \<exists>i j. leftmost_longest m text i j \<and> start_pos text = j"
    unfolding start_pos_def by (rule start_loop_spec) (rule markers_simple)
  show e: "case find (\<lambda>m. found m text) end_markers of
         None \<Rightarrow> end_pos text = length text
       | Some m \<Rightarrow> \<exists>i j. leftmost_longest m text i j \<and> end_pos text = i"
    unfolding end_pos_def by (rule end_loop_spec) (rule markers_simple)
  assume a: "(\<forall>m \<in> set start_markers. \<not> found m text)
        \<and> (\<forall>m \<in> set end_markers. \<not> found m text)"
  then have "find (\<lambda>m. found m text) start_markers = None"
    "find (\<lambda>m. found m text) end_markers = None"
    by (simp_all add: find_None_all)
  with s e have "start_pos text = 0" "end_pos text = length text" by simp_all
  then show "strip_gutenberg_headers text = py_strip text"
    using eq by (simp add: py_slice_whole)
qed


theorem strip_gutenberg_headers_spec_witness:
  "find (\<lambda>m. found m ''  Call me.  '') start_markers = None
   \<and> find (\<lambda>m. found m ''  Call me.  '') end_markers = None
   \<and> strip_gutenberg_headers ''  Call me.  '' = ''Call me.''
   \<and> find (\<lambda>m. found m sample_text) start_markers = Some (start_markers ! 0)
   \<and> (\<exists>i. occurs (start_markers ! 0) sample_text i 47)
   \<and> start_pos sample_text = 47
   \<and> find (\<lambda>m. found m sample_text) end_markers = Some (end_markers ! 2)
   \<and> (\<exists>j. occurs (end_markers ! 2) sample_text 51 j)
   \<and> end_pos sample_text = 51
   \<and> strip_gutenberg_headers sample_text = ''Hi''"
proof -
  have f0: "(\<lambda>m. found m ''  Call me.  '') = (\<lambda>m. re_search m ''  Call me.  '' \<noteq> None)"
    by (simp add: found_iff_re_search)
  have a1: "find (\<lambda>m. found m ''  Call me.  '') start_markers = None"
    unfolding f0 by code_simp
  have a2: "find (\<lambda>m. found m ''  Call me.  '') end_markers = None"
    unfolding f0 by code_simp
  from a1 a2 have h: "(\<forall>m \<in> set start_markers. \<not> found m ''  Call me.  '')
      \<and> (\<forall>m \<in> set end_markers. \<not> found m ''  Call me.  '')"
    by (simp add: find_None_all)
  note t0 = strip_gutenberg_headers_spec [of "''  Call me.  ''"]
  from t0 have "(\<forall>m \<in> set start_markers. \<not> found m ''  Call me.  '')
      \<and> (\<forall>m \<in> set end_markers. \<not> found m ''  Call me.  '')
      \<longrightarrow> strip_gutenberg_headers ''  Call me.  '' = py_strip ''  Call me.  ''"
    by (rule conjunct2[OF conjunct2[OF conjunct2]])
  from this h have "strip_gutenberg_headers ''  Call me.  '' = py_strip ''  Call me.  ''"
    by (rule mp)
  also have "py_strip ''  Call me.  '' = ''Call me.''" by code_simp
  finally have a3: "strip_gutenberg_headers ''  Call me.  '' = ''Call me.''" .
  have f1: "(\<lambda>m. found m sample_text) = (\<lambda>m. re_search m sample_text \<noteq> None)"
    by (simp add: found_iff_re_search)
  have b1: "find (\<lambda>m. found m sample_text) start_markers = Some (start_markers ! 0)"
    unfolding f1 by code_simp
  have b2: "find (\<lambda>m. found m sample_text) end_markers = Some (end_markers ! 2)"
    unfolding f1 by code_simp
  have sp: "start_pos sample_text = 47" by code_simp
  have ep: "end_pos sample_text = 51" by code_simp
  note t1 = strip_gutenberg_headers_spec [of sample_text]
  from t1 have "case find (\<lambda>m. found m sample_text) start_markers of
         None \<Rightarrow> start_pos sample_text = 0
       | Some m \<Rightarrow> \<exists>i j. leftmost_longest m sample_text i j \<and> start_pos sample_text = j"
    by (rule conjunct1[OF conjunct2])
  then obtain i j where "leftmost_longest (start_markers ! 0) sample_text i j"
    and "start_pos sample_text = j"
    unfolding b1 by auto
  then have c1: "\<exists>i. occurs (start_markers ! 0) sample_text i 47"
    using sp by (auto simp: leftmost_longest_iff)
  from t1 have "case find (\<lambda>m. found m sample_text) end_markers of
         None \<Rightarrow> end_pos sample_text = length sample_text
       | Some m \<Rightarrow> \<exists>i j. leftmost_longest m sample_text i j \<and> end_pos sample_text = i"
    by (rule conjunct1[OF conjunct2[OF conjunct2]])
  then obtain i' j' where "leftmost_longest (end_markers ! 2) sample_text i' j'"
    and "end_pos sample_text = i'"
    unfolding b2 by auto
  then have c2: "\<exists>j. occurs (end_markers ! 2) sample_text 51 j"
    using ep by (auto simp: leftmost_longest_iff)
  from t1 have "strip_gutenberg_headers sample_text =
      py_strip (py_slice (start_pos sample_text) (end_pos sample_text) sample_text)"
    by (rule conjunct1)
  then have "strip_gutenberg_headers sample_text = py_strip (py_slice 47 51 sample_text)"
    unfolding sp ep .
  also have "py_strip (py_slice 47 51 sample_text) = ''Hi''" by code_simp
  finally have c3: "strip_gutenberg_headers sample_text = ''Hi''" .
  from a1 a2 a3 b1 c1 sp b2 c2 ep c3 show ?thesis by (intro conjI)
qed

section \<open>Properties of \<open>fetch_metadata\<close>\<close>


lemma fetch_loop_failed_chain:
  assumes "pages_chain api i url ps (Some u)" "u \<noteq> []" "api (i + length ps) u = Failed"
  shows "\<exists>bs n. fetch_loop api num i books url = Some (bs, n)
           \<and> n \<le> Suc (i + length ps)
           \<and> (n = Suc (i + length ps) \<longleftrightarrow> int (length (books @ concat (map fst ps))) < num)
           \<and> (n = Suc (i + length ps) \<longrightarrow> bs = books @ concat (map fst ps))
           \<and> (num \<le> int (length books) \<longrightarrow> bs = books)
           \<and> take (nat num) bs = take (nat num) (books @ concat (map fst ps))"
  using assms
proof (induction ps arbitrary: i url books)
  case Nil
  then have url: "url = Some u" by simp
  show ?case
  proof (cases "int (length books) < num")
    case True
    then have "fetch_loop api num i books url = Some (books, Suc i)"
      using Nil url by (subst fetch_loop.simps) simp
    then show ?thesis using True by simp
  next
    case False
    then have "fetch_loop api num i books url = Some (books, i)"
      using url by (subst fetch_loop.simps) simp
    then show ?thesis using False by simp
  qed
next
  case (Cons p ps)
  obtain es nxt where p: "p = (es, nxt)" by (cases p)
  from Cons.prems(1) p obtain v where v: "url = Some v" "v \<noteq> []" "api i v = Page es nxt"
    and ch: "pages_chain api (Suc i) nxt ps (Some u)"
    by (auto split: option.splits)
  show ?case
  proof (cases "int (length books) < num")
    case True
    then have step: "fetch_loop api num i books url = fetch_loop api num (Suc i) (books @ es) nxt"
      using v by (subst fetch_loop.simps) simp
    have f: "api (Suc i + length ps) u = Failed" using Cons.prems(3) by simp
    from Cons.IH[OF ch Cons.prems(2) f, of "books @ es"]
    obtain bs n where run: "fetch_loop api num (Suc i) (books @ es) nxt = Some (bs, n)"
      and le: "n \<le> Suc (Suc i + length ps)"
      and iff: "n = Suc (Suc i + length ps) \<longleftrightarrow>
                  int (length ((books @ es) @ concat (map fst ps))) < num"
      and val: "n = Suc (Suc i + length ps) \<longrightarrow> bs = (books @ es) @ concat (map fst ps)"
      and tk: "take (nat num) bs = take (nat num) ((books @ es) @ concat (map fst ps))"
      by blast
    show ?thesis
      unfolding step run p using le iff val tk True by simp
  next
    case False
    then have "fetch_loop api num i books url = Some (books, i)"
      using v by (subst fetch_loop.simps) simp
    then show ?thesis using False by simp
  qed
qed

lemma py_slice_to_fits: "int (length xs) \<le> k \<Longrightarrow> py_slice_to k xs = xs"
  by (simp add: py_slice_to_def)

text \<open>
  Claim C4. Let the pages \<open>ps\<close> be served one after the other along the next links from the
  start URL, and let the request that follows them (request number \<open>length ps + 1\<close>, the
  \<open>N\<close>-th) fail. Then \<open>fetch_metadata\<close> returns a list, which holds the first \<open>num_books\<close>
  entries of pages \<open>1..N-1\<close> in order; whenever the run has made that \<open>N\<close>-th request the
  list is the concatenation of the entries of all the pages \<open>1..N-1\<close>.
\<close>

theorem fetch_metadata_partial_failure:
  assumes "pages_chain api 0 (Some (start_url language)) ps (Some u)"
    and "u \<noteq> []"
    and "api (length ps) u = Failed"
  shows "fetch_metadata api num_books language =
           Some (take (nat num_books) (concat (map fst ps)))
         \<and> (fetch_requests api num_books language = Some (Suc (length ps))
              \<longrightarrow> fetch_metadata api num_books language = Some (concat (map fst ps)))"
proof -
  have f: "api (0 + length ps) u = Failed" using assms(3) by simp
  from fetch_loop_failed_chain[OF assms(1) assms(2) f, of num_books "[]"]
  obtain bs n where run: "fetch_loop api num_books 0 [] (Some (start_url language)) = Some (bs, n)"
    and iff: "n = Suc (length ps) \<longleftrightarrow> int (length (concat (map fst ps))) < num_books"
    and val: "n = Suc (length ps) \<longrightarrow> bs = concat (map fst ps)"
    and neg: "num_books \<le> 0 \<longrightarrow> bs = []"
    and tk: "take (nat num_books) bs = take (nat num_books) (concat (map fst ps))"
    by auto
  have res: "fetch_metadata api num_books language = Some (py_slice_to num_books bs)"
    by (simp add: fetch_metadata_def run)
  have req: "fetch_requests api num_books language = Some n"
    by (simp add: fetch_requests_def run)
  have "py_slice_to num_books bs = take (nat num_books) (concat (map fst ps))"
  proof (cases "0 \<le> num_books")
    case True
    then show ?thesis using tk by (simp add: py_slice_to_def)
  next
    case False
    with neg have "bs = []" by simp
    then show ?thesis using False by (simp add: py_slice_to_def)
  qed
  with res have gen: "fetch_metadata api num_books language =
      Some (take (nat num_books) (concat (map fst ps)))"
    by simp
  have "take (nat num_books) (concat (map fst ps)) = concat (map fst ps)"
    if "n = Suc (length ps)"
  proof -
    from that iff have "int (length (concat (map fst ps))) < num_books" by simp
    then show ?thesis by simp
  qed
  with gen req show ?thesis by simp
qed

lemma fetch_loop_stop:
  assumes "pages_chain api i url ps url'"
    "k \<le> int (length books + length (concat (map fst ps)))"
  shows "\<exists>m\<le>length ps. fetch_loop api k i books url =
             Some (books @ concat (map fst (take m ps)), i + m)
           \<and> k \<le> int (length books + length (concat (map fst (take m ps))))
           \<and> (\<forall>j<m. int (length books + length (concat (map fst (take j ps)))) < k)"
  using assms
proof (induction ps arbitrary: i url books)
  case Nil
  then have "fetch_loop api k i books url = Some (books, i)"
    by (subst fetch_loop.simps) (simp split: option.splits)
  then show ?case using Nil by simp
next
  case (Cons p ps)
  obtain es nxt where p: "p = (es, nxt)" by (cases p)
  from Cons.prems(1) p obtain v where v: "url = Some v" "v \<noteq> []" "api i v = Page es nxt"
    and ch: "pages_chain api (Suc i) nxt ps url'"
    by (auto split: option.splits)
  show ?case
  proof (cases "int (length books) < k")
    case True
    then have step: "fetch_loop api k i books url = fetch_loop api k (Suc i) (books @ es) nxt"
      using v by (subst fetch_loop.simps) simp
    have le: "k \<le> int (length (books @ es) + length (concat (map fst ps)))"
      using Cons.prems(2) p by simp
    from Cons.IH[OF ch le]
    obtain m where m: "m \<le> length ps"
      and run: "fetch_loop api k (Suc i) (books @ es) nxt =
                  Some ((books @ es) @ concat (map fst (take m ps)), Suc i + m)"
      and enough: "k \<le> int (length (books @ es) + length (concat (map fst (take m ps))))"
      and before: "\<forall>j<m. int (length (books @ es) + length (concat (map fst (take j ps)))) < k"
      by blast
    have b: "\<forall>j<Suc m. int (length books + length (concat (map fst (take j (p # ps))))) < k"
    proof (intro allI impI)
      fix j assume j: "j < Suc m"
      show "int (length books + length (concat (map fst (take j (p # ps))))) < k"
      proof (cases j)
        case 0
        then show ?thesis using True by simp
      next
        case (Suc j')
        with j have "j' < m" by simp
        with before have "int (length (books @ es) + length (concat (map fst (take j' ps)))) < k"
          by blast
        then show ?thesis using Suc p by simp
      qed
    qed
    have "Suc m \<le> length (p # ps)" using m by simp
    moreover have "fetch_loop api k i books url =
        Some (books @ concat (map fst (take (Suc m) (p # ps))), i + Suc m)"
      using step run p by simp
    moreover have "k \<le> int (length books + length (concat (map fst (take (Suc m) (p # ps)))))"
      using enough p by simp
    ultimately show ?thesis using b by blast
  next
    case False
    then have "fetch_loop api k i books url = Some (books, i)"
      using v by (subst fetch_loop.simps) simp
    then show ?thesis using False by (intro exI[of _ 0]) simp
  qed
qed

lemma fetch_loop_exhausted:
  assumes "pages_chain api i url ps url'" "no_next url'"
    "int (length books + length (concat (map fst ps))) < k"
  shows "fetch_loop api k i books url = Some (books @ concat (map fst ps), i + length ps)"
  using assms
proof (induction ps arbitrary: i url books)
  case Nil
  then show ?case
    by (subst fetch_loop.simps) (auto simp: no_next_def split: option.splits)
next
  case (Cons p ps)
  obtain es nxt where p: "p = (es, nxt)" by (cases p)
  from Cons.prems(1) p obtain v where v: "url = Some v" "v \<noteq> []" "api i v = Page es nxt"
    and ch: "pages_chain api (Suc i) nxt ps url'"
    by (auto split: option.splits)
  have lt: "int (length books) < k" using Cons.prems(3) by simp
  then have step: "fetch_loop api k i books url = fetch_loop api k (Suc i) (books @ es) nxt"
    using v by (subst fetch_loop.simps) simp
  have lt': "int (length (books @ es) + length (concat (map fst ps))) < k"
    using Cons.prems(3) p by simp
  from Cons.IH[OF ch Cons.prems(2) lt'] show ?case unfolding step p by simp
qed

text \<open>
  Claim C5. Let the pages \<open>ps\<close> be served along the next links from the start URL and let
  \<open>k \<ge> 0\<close> be the requested count. If the pages hold at least \<open>k\<close> entries,
  \<open>fetch_metadata\<close> returns exactly the first \<open>k\<close> of them, in page order, and it stops
  requesting at the first page with which \<open>k\<close> entries are accumulated. If they hold fewer
  and the last page carries no next link, it returns all of them after one request per page.
\<close>

theorem fetch_metadata_trimmed:
  assumes "pages_chain api 0 (Some (start_url language)) ps nxt"
    and "0 \<le> k"
  shows "(k \<le> int (length (concat (map fst ps))) \<longrightarrow>
            fetch_metadata api k language = Some (take (nat k) (concat (map fst ps)))
            \<and> (\<forall>books. fetch_metadata api k language = Some books \<longrightarrow> int (length books) = k)
            \<and> (\<exists>m\<le>length ps. fetch_requests api k language = Some m
                   \<and> k \<le> int (length (concat (map fst (take m ps))))
                   \<and> (\<forall>j<m. int (length (concat (map fst (take j ps)))) < k)))
       \<and> (int (length (concat (map fst ps))) < k \<and> no_next nxt \<longrightarrow>
            fetch_metadata api k language = Some (concat (map fst ps))
            \<and> fetch_requests api k language = Some (length ps))"
proof (intro conjI impI)
  assume total: "k \<le> int (length (concat (map fst ps)))"
  have le: "k \<le> int (length ([] :: 'a list) + length (concat (map fst ps)))"
    using total by simp
  from fetch_loop_stop[OF assms(1) le]
  obtain m where m: "m \<le> length ps"
    and run: "fetch_loop api k 0 [] (Some (start_url language)) =
                Some (concat (map fst (take m ps)), m)"
    and enough: "k \<le> int (length (concat (map fst (take m ps))))"
    and before: "\<forall>j<m. int (length (concat (map fst (take j ps)))) < k"
    by auto
  have "concat (map fst ps) = concat (map fst (take m ps)) @ concat (map fst (drop m ps))"
    by (metis append_take_drop_id concat_append map_append)
  then have tk: "take (nat k) (concat (map fst (take m ps))) = take (nat k) (concat (map fst ps))"
    using enough by simp
  have "fetch_metadata api k language = Some (py_slice_to k (concat (map fst (take m ps))))"
    by (simp add: fetch_metadata_def run)
  also have "py_slice_to k (concat (map fst (take m ps))) = take (nat k) (concat (map fst ps))"
    using assms(2) tk by (simp add: py_slice_to_def)
  finally show res: "fetch_metadata api k language = Some (take (nat k) (concat (map fst ps)))" .
  have "int (length (take (nat k) (concat (map fst ps)))) = k"
    using assms(2) total by simp
  with res show "\<forall>books. fetch_metadata api k language = Some books \<longrightarrow> int (length books) = k"
    by simp
  have "fetch_requests api k language = Some m"
    by (simp add: fetch_requests_def run)
  with m enough before
  show "\<exists>m\<le>length ps. fetch_requests api k language = Some m
          \<and> k \<le> int (length (concat (map fst (take m ps))))
          \<and> (\<forall>j<m. int (length (concat (map fst (take j ps)))) < k)"
    by blast
next
  assume a: "int (length (concat (map fst ps))) < k \<and> no_next nxt"
  then have lt: "int (length ([] :: 'a list) + length (concat (map fst ps))) < k" by simp
  from a have nn: "no_next nxt" by simp
  have run: "fetch_loop api k 0 [] (Some (start_url language)) =
      Some (concat (map fst ps), length ps)"
    using fetch_loop_exhausted[OF assms(1) nn lt] by simp
  from a have "py_slice_to k (concat (map fst ps)) = concat (map fst ps)"
    by (simp add: py_slice_to_fits)
  then show "fetch_metadata api k language = Some (concat (map fst ps))"
    by (simp add: fetch_metadata_def run)
  show "fetch_requests api k language = Some (length ps)"
    by (simp add: fetch_requests_def run)
qed

lemma demo_chain:
  "pages_chain demo_api 0 (Some (start_url ''en''))
     [([1, 2], Some ''p2''), ([3, 4], Some ''p3'')] (Some ''p3'')"
  by (simp add: demo_api_def start_url_def GUTENDEX_API_def)

lemma demo_run10: "fetch_loop demo_api 10 0 [] (Some (start_url ''en'')) = Some ([1,2,3,4], 3)"
  by (simp add: fetch_loop.simps demo_api_def start_url_def GUTENDEX_API_def)

theorem fetch_metadata_partial_failure_witness:
  "pages_chain demo_api 0 (Some (start_url ''en''))
     [([1, 2], Some ''p2''), ([3, 4], Some ''p3'')] (Some ''p3'')
   \<and> demo_api 2 ''p3'' = Failed
   \<and> fetch_requests demo_api 10 ''en'' = Some 3
   \<and> fetch_metadata demo_api 10 ''en'' = Some [1, 2, 3, 4]"
proof -
  have f: "demo_api (length [([1, 2], Some ''p2''), ([3, 4::nat], Some ''p3'')]) ''p3'' = Failed"
    by (simp add: demo_api_def)
  have ne: "''p3'' \<noteq> []" by simp
  have req: "fetch_requests demo_api 10 ''en'' = Some 3"
    by (simp add: fetch_requests_def demo_run10)
  from fetch_metadata_partial_failure[OF demo_chain ne f, of 10] req
  have "fetch_metadata demo_api 10 ''en'' = Some [1, 2, 3, 4]" by simp
  moreover have "demo_api 2 ''p3'' = Failed" by (simp add: demo_api_def)
  ultimately show ?thesis using demo_chain req by (intro conjI)
qed

theorem fetch_metadata_trimmed_witness:
  "pages_chain demo_api 0 (Some (start_url ''en''))
     [([1, 2], Some ''p2''), ([3, 4], Some ''p3'')] (Some ''p3'')
   \<and> fetch_metadata demo_api 3 ''en'' = Some [1, 2, 3]
   \<and> fetch_requests demo_api 3 ''en'' = Some 2"
proof -
  have k: "(0::int) \<le> 3" by simp
  from fetch_metadata_trimmed[OF demo_chain k]
  have "fetch_metadata demo_api 3 ''en'' = Some [1, 2, 3]" by simp
  moreover have "fetch_requests demo_api 3 ''en'' = Some 2"
    by (simp add: fetch_requests_def fetch_loop.simps demo_api_def start_url_def GUTENDEX_API_def)
  ultimately show ?thesis using demo_chain by simp
qed

section \<open>Properties of the name parsing\<close>


lemma takeWhile_upto: "c \<notin> set a \<Longrightarrow> takeWhile (\<lambda>x. x \<noteq> c) (a @ c # b) = a"
  by (induction a) auto

lemma dropWhile_upto: "c \<notin> set a \<Longrightarrow> dropWhile (\<lambda>x. x \<noteq> c) (a @ c # b) = c # b"
  by (induction a) auto

lemma py_split1_comma:
  assumes "c \<notin> set a"
  shows "py_split1 c (a @ c # b) = [a, b]"
  using assms by (simp add: py_split1_def takeWhile_upto dropWhile_upto)

lemma parse_name_comma:
  "CHR '','' \<notin> set a \<Longrightarrow> parse_name (a @ CHR '','' # b) = (py_strip a, py_strip b)"
  by (simp add: parse_name_def py_split1_comma)

lemma parse_name_plain: "CHR '','' \<notin> set n \<Longrightarrow> parse_name n = (n, [])"
  by (simp add: parse_name_def)

lemma make_person_named:
  "make_person fallback \<lparr>name = Some n\<rparr> =
     \<lparr>po_type = ''personal'', po_name = n,
      given_name = nonempty (snd (parse_name n)), family_name = nonempty (fst (parse_name n))\<rparr>"
  by (simp add: make_person_def Let_def split: prod.splits)

text \<open>
  Claim C6. A name with a comma is split at its first comma into family name and given name,
  both trimmed; a name without a comma is the family name, with an empty given name. Every
  author, editor and translator entry of the target metadata carries the name and the
  non-empty parts of its parse, and a book without authors gets the single creator
  "Unknown Author", which has no given name.
\<close>

theorem author_names_parsed:
  "(\<forall>a b. CHR '','' \<notin> set a \<longrightarrow> parse_name (a @ CHR '','' # b) = (py_strip a, py_strip b))
   \<and> (\<forall>n. CHR '','' \<notin> set n \<longrightarrow> parse_name n = (n, []))
   \<and> (\<forall>fallback n. make_person fallback \<lparr>name = Some n\<rparr> =
          \<lparr>po_type = ''personal'', po_name = n,
           given_name = nonempty (snd (parse_name n)),
           family_name = nonempty (fst (parse_name n))\<rparr>)
   \<and> (authors bm \<noteq> [] \<longrightarrow>
          md_creators (create_metadata self bm) =
            map (\<lambda>a. \<lparr>person_or_org = make_person ''Unknown Author'' a, role = None\<rparr>)
                (authors bm))
   \<and> (authors bm = [] \<longrightarrow>
          md_creators (create_metadata self bm) =
            [\<lparr>person_or_org = \<lparr>po_type = ''personal'', po_name = ''Unknown Author'',
                                given_name = None, family_name = Some ''Unknown''\<rparr>,
              role = None\<rparr>])
   \<and> (editors bm @ translators bm \<noteq> [] \<longrightarrow>
          md_contributors (create_metadata self bm) =
            Some (map (\<lambda>e. \<lparr>person_or_org = make_person ''Unknown Editor'' e,
                            role = Some ''editor''\<rparr>) (editors bm)
                  @ map (\<lambda>t. \<lparr>person_or_org = make_person ''Unknown Translator'' t,
                              role = Some ''other''\<rparr>) (translators bm)))"
proof (intro conjI allI impI)
  fix a b assume "CHR '','' \<notin> set a"
  then show "parse_name (a @ CHR '','' # b) = (py_strip a, py_strip b)"
    by (rule parse_name_comma)
next
  fix n assume "CHR '','' \<notin> set n"
  then show "parse_name n = (n, [])" by (rule parse_name_plain)
next
  fix fallback n
  show "make_person fallback \<lparr>name = Some n\<rparr> =
          \<lparr>po_type = ''personal'', po_name = n,
           given_name = nonempty (snd (parse_name n)),
           family_name = nonempty (fst (parse_name n))\<rparr>"
    by (rule make_person_named)
next
  assume "authors bm \<noteq> []"
  then show "md_creators (create_metadata self bm) =
            map (\<lambda>a. \<lparr>person_or_org = make_person ''Unknown Author'' a, role = None\<rparr>)
                (authors bm)"
    by (simp add: create_metadata_def creators_of_def Let_def)
next
  assume "authors bm = []"
  then show "md_creators (create_metadata self bm) =
            [\<lparr>person_or_org = \<lparr>po_type = ''personal'', po_name = ''Unknown Author'',
                                given_name = None, family_name = Some ''Unknown''\<rparr>,
              role = None\<rparr>]"
    by (simp add: create_metadata_def creators_of_def Let_def unknown_creator_def)
next
  assume "editors bm @ translators bm \<noteq> []"
  then show "md_contributors (create_metadata self bm) =
            Some (map (\<lambda>e. \<lparr>person_or_org = make_person ''Unknown Editor'' e,
                            role = Some ''editor''\<rparr>) (editors bm)
                  @ map (\<lambda>t. \<lparr>person_or_org = make_person ''Unknown Translator'' t,
                              role = Some ''other''\<rparr>) (translators bm))"
    by (simp add: create_metadata_def contributors_of_def Let_def)
qed

lemma py_strip_examples:
  "py_strip ''Doe'' = ''Doe''" "py_strip ''  Jane '' = ''Jane''"
  by code_simp+

theorem author_names_parsed_witness:
  "CHR '','' \<notin> set ''Doe'' \<and> parse_name ''Doe,  Jane '' = (''Doe'', ''Jane'')
   \<and> CHR '','' \<notin> set ''Plato'' \<and> parse_name ''Plato'' = (''Plato'', [])
   \<and> make_person ''Unknown Author'' \<lparr>name = Some ''Plato''\<rparr> =
       \<lparr>po_type = ''personal'', po_name = ''Plato'', given_name = None,
        family_name = Some ''Plato''\<rparr>
   \<and> authors (demo_book\<lparr>authors := []\<rparr>) = []
   \<and> md_creators (create_metadata demo_uploader (demo_book\<lparr>authors := []\<rparr>)) =
        [\<lparr>person_or_org = \<lparr>po_type = ''personal'', po_name = ''Unknown Author'',
                            given_name = None, family_name = Some ''Unknown''\<rparr>,
          role = None\<rparr>]
   \<and> authors demo_book \<noteq> []
   \<and> md_creators (create_metadata demo_uploader demo_book) =
        [\<lparr>person_or_org = \<lparr>po_type = ''personal'', po_name = ''Shelley, Mary Wollstonecraft'',
                            given_name = Some ''Mary Wollstonecraft'',
                            family_name = Some ''Shelley''\<rparr>, role = None\<rparr>,
         \<lparr>person_or_org = \<lparr>po_type = ''personal'', po_name = ''Plato'',
                            given_name = None, family_name = Some ''Plato''\<rparr>, role = None\<rparr>]
   \<and> editors demo_book @ translators demo_book \<noteq> []
   \<and> md_contributors (create_metadata demo_uploader demo_book) =
        Some [\<lparr>person_or_org = \<lparr>po_type = ''personal'', po_name = ''Doe,  Jane '',
                                 given_name = Some ''Jane'', family_name = Some ''Doe''\<rparr>,
               role = Some ''other''\<rparr>]"
proof -
  note t = author_names_parsed [of demo_book demo_uploader]
  note u = author_names_parsed [of "demo_book\<lparr>authors := []\<rparr>" demo_uploader]
  have c1: "CHR '','' \<notin> set ''Doe''" by simp
  have c2: "CHR '','' \<notin> set ''Plato''" by simp
  have c3: "CHR '','' \<notin> set ''Shelley''" by simp
  from t c1 have "parse_name (''Doe'' @ CHR '','' # ''  Jane '') = (py_strip ''Doe'', py_strip ''  Jane '')"
    by blast
  then have p1: "parse_name ''Doe,  Jane '' = (''Doe'', ''Jane'')"
    by (simp add: py_strip_examples)
  from t c2 have p2: "parse_name ''Plato'' = (''Plato'', [])" by blast
  from t c3 have "parse_name (''Shelley'' @ CHR '','' # '' Mary Wollstonecraft'')
      = (py_strip ''Shelley'', py_strip '' Mary Wollstonecraft'')"
    by blast
  moreover have "py_strip ''Shelley'' = ''Shelley''"
    "py_strip '' Mary Wollstonecraft'' = ''Mary Wollstonecraft''"
    by code_simp+
  ultimately have p3: "parse_name ''Shelley, Mary Wollstonecraft'' = (''Shelley'', ''Mary Wollstonecraft'')"
    by simp
  from t have mp: "make_person fallback \<lparr>name = Some n\<rparr> =
          \<lparr>po_type = ''personal'', po_name = n,
           given_name = nonempty (snd (parse_name n)),
           family_name = nonempty (fst (parse_name n))\<rparr>" for fallback n
    by blast
  have m1: "make_person ''Unknown Author'' \<lparr>name = Some ''Plato''\<rparr> =
       \<lparr>po_type = ''personal'', po_name = ''Plato'', given_name = None,
        family_name = Some ''Plato''\<rparr>"
    by (simp add: mp p2 nonempty_def)
  have a0: "authors (demo_book\<lparr>authors := []\<rparr>) = []" by simp
  from u a0 have k1: "md_creators (create_metadata demo_uploader (demo_book\<lparr>authors := []\<rparr>)) =
        [\<lparr>person_or_org = \<lparr>po_type = ''personal'', po_name = ''Unknown Author'',
                            given_name = None, family_name = Some ''Unknown''\<rparr>,
          role = None\<rparr>]"
    by blast
  have a1: "authors demo_book \<noteq> []" by (simp add: demo_book_def)
  from t a1 have "md_creators (create_metadata demo_uploader demo_book) =
            map (\<lambda>a. \<lparr>person_or_org = make_person ''Unknown Author'' a, role = None\<rparr>)
                (authors demo_book)"
    by blast
  then have k2: "md_creators (create_metadata demo_uploader demo_book) =
        [\<lparr>person_or_org = \<lparr>po_type = ''personal'', po_name = ''Shelley, Mary Wollstonecraft'',
                            given_name = Some ''Mary Wollstonecraft'',
                            family_name = Some ''Shelley''\<rparr>, role = None\<rparr>,
         \<lparr>person_or_org = \<lparr>po_type = ''personal'', po_name = ''Plato'',
                            given_name = None, family_name = Some ''Plato''\<rparr>, role = None\<rparr>]"
    by (simp add: demo_book_def mp p2 p3 nonempty_def)
  have a2: "editors demo_book @ translators demo_book \<noteq> []" by (simp add: demo_book_def)
  from t a2 have "md_contributors (create_metadata demo_uploader demo_book) =
            Some (map (\<lambda>e. \<lparr>person_or_org = make_person ''Unknown Editor'' e,
                            role = Some ''editor''\<rparr>) (editors demo_book)
                  @ map (\<lambda>t. \<lparr>person_or_org = make_person ''Unknown Translator'' t,
                              role = Some ''other''\<rparr>) (translators demo_book))"
    by blast
  then have k3: "md_contributors (create_metadata demo_uploader demo_book) =
        Some [\<lparr>person_or_org = \<lparr>po_type = ''personal'', po_name = ''Doe,  Jane '',
                                 given_name = Some ''Jane'', family_name = Some ''Doe''\<rparr>,
               role = Some ''other''\<rparr>]"
    by (simp add: demo_book_def mp p1 nonempty_def)
  from c1 p1 c2 p2 m1 a0 k1 a1 k2 a2 k3 show ?thesis by (intro conjI)
qed

section \<open>Properties of the language conversion\<close>


lemma convert_loop_map: "convert_loop pc acc ls = acc @ map (convert_lang pc) ls"
  by (induction ls arbitrary: acc) simp_all

lemma converted_languages_eq:
  "converted_languages pc ls = (if ls = [] then None else Some (map (convert_lang pc) ls))"
  by (simp add: converted_languages_def convert_loop_map Let_def)

lemma md_languages_create:
  "md_languages (create_metadata self bm) = converted_languages (pycountry self) (languages bm)"
  by (simp add: create_metadata_def Let_def)

text \<open>
  Claim C7. The language list of the target metadata, when present, has the length and the
  order of the book's language list, each code converted on its own; it is present whenever
  the book lists a language. A code of two letters with an entry in the table becomes the
  three-letter code of the entry; a code of two letters without an entry, a code of another
  length, and every code when the table is unavailable stay as they are.
\<close>

theorem language_codes_converted:
  "(\<forall>cl. md_languages (create_metadata self bm) = Some cl \<longrightarrow>
       length cl = length (languages bm)
       \<and> (\<forall>i < length cl. cl ! i = convert_lang (pycountry self) (languages bm ! i)))
   \<and> (languages bm \<noteq> [] \<longrightarrow> md_languages (create_metadata self bm) \<noteq> None)
   \<and> (\<forall>table alpha_3. length code = 2 \<and> table code = Some alpha_3 \<longrightarrow>
          convert_lang (Some table) code = alpha_3)
   \<and> (\<forall>table. length code = 2 \<and> table code = None \<longrightarrow> convert_lang (Some table) code = code)
   \<and> (\<forall>pc. length code \<noteq> 2 \<longrightarrow> convert_lang pc code = code)
   \<and> convert_lang None code = code"
proof (intro conjI allI impI)
  fix cl assume a: "md_languages (create_metadata self bm) = Some cl"
  then have cl: "cl = map (convert_lang (pycountry self)) (languages bm)"
    by (simp add: md_languages_create converted_languages_eq split: if_splits)
  show "length cl = length (languages bm)" by (simp add: cl)
  fix i assume "i < length cl"
  then show "cl ! i = convert_lang (pycountry self) (languages bm ! i)" by (simp add: cl)
next
  assume "languages bm \<noteq> []"
  then show "md_languages (create_metadata self bm) \<noteq> None"
    by (simp add: md_languages_create converted_languages_eq)
next
  fix table :: "string \<rightharpoonup> string" and alpha_3
  assume "length code = 2 \<and> table code = Some alpha_3"
  then show "convert_lang (Some table) code = alpha_3" by (simp add: convert_lang_def)
next
  fix table :: "string \<rightharpoonup> string"
  assume "length code = 2 \<and> table code = None"
  then show "convert_lang (Some table) code = code" by (simp add: convert_lang_def)
next
  fix pc assume "length code \<noteq> 2"
  then show "convert_lang pc code = code" by (simp add: convert_lang_def split: option.splits)
next
  show "convert_lang None code = code" by (simp add: convert_lang_def)
qed

theorem language_codes_converted_witness:
  "md_languages (create_metadata demo_uploader demo_book) = Some [''eng'', ''xx'', ''fra'']
   \<and> length [''eng'', ''xx'', ''fra''] = length (languages demo_book)
   \<and> length ''en'' = 2 \<and> [''en'' \<mapsto> ''eng''] ''en'' = Some ''eng''
   \<and> convert_lang (Some [''en'' \<mapsto> ''eng'']) ''en'' = ''eng''
   \<and> length ''xx'' = 2 \<and> [''en'' \<mapsto> ''eng''] ''xx'' = None
   \<and> convert_lang (Some [''en'' \<mapsto> ''eng'']) ''xx'' = ''xx''
   \<and> length ''fra'' \<noteq> 2
   \<and> convert_lang (Some [''en'' \<mapsto> ''eng'']) ''fra'' = ''fra''"
proof -
  have m: "md_languages (create_metadata demo_uploader demo_book) = Some [''eng'', ''xx'', ''fra'']"
    by (simp add: md_languages_create converted_languages_eq demo_uploader_def demo_book_def
        convert_lang_def)
  have h1: "length ''en'' = 2 \<and> [''en'' \<mapsto> ''eng''] ''en'' = Some ''eng''" by simp
  have h2: "length ''xx'' = 2 \<and> [''en'' \<mapsto> ''eng''] ''xx'' = None" by simp
  have h3: "length ''fra'' \<noteq> 2" by simp
  from language_codes_converted [of demo_uploader demo_book "''en''"] m h1
  have a: "length [''eng'', ''xx'', ''fra''] = length (languages demo_book)"
    and b: "convert_lang (Some [''en'' \<mapsto> ''eng'']) ''en'' = ''eng''"
    by blast+
  from language_codes_converted [of demo_uploader demo_book "''xx''"] h2
  have c: "convert_lang (Some [''en'' \<mapsto> ''eng'']) ''xx'' = ''xx''" by blast
  from language_codes_converted [of demo_uploader demo_book "''fra''"] h3
  have d: "convert_lang (Some [''en'' \<mapsto> ''eng'']) ''fra'' = ''fra''" by blast
  from m a h1 b h2 c h3 d show ?thesis by blast
qed

section \<open>Properties of \<open>download_book_text\<close>\<close>


lemma decode_latin1_roundtrip:
  "map (\<lambda>c. word_of_nat (of_char c) :: 8 word) (decode_latin1 bs) = bs"
proof -
  have "(word_of_nat (of_char (char_of (unat b) :: char)) :: 8 word) = b" for b :: "8 word"
  proof -
    have "unat b < 2 ^ LENGTH(8)" by (rule unsigned_less)
    then have "unat b < 256" by simp
    then have "(of_char (char_of (unat b) :: char) :: nat) = unat b" by simp
    then show ?thesis by simp
  qed
  then show ?thesis by (simp add: decode_latin1_def comp_def)
qed

text \<open>
  Claim C8. \<open>download_book_text\<close> returns \<open>None\<close> exactly when the request fails. Whenever
  the body arrives, whatever its bytes, the decoding yields a text and the call returns the
  stripped text: where the UTF-8 decoder refuses the bytes the Latin-1 decoder takes over,
  and it accepts every byte sequence, turning each byte into the character of that code
  point.
\<close>

theorem download_book_text_decoding_total:
  "(download_book_text utf8 get book = None) = (get (text_url book) = TransportError)
   \<and> (\<forall>bs. get (text_url book) = Content bs \<longrightarrow>
          download_book_text utf8 get book
            = Some (strip_gutenberg_headers (decode_content utf8 bs)))
   \<and> (\<forall>bs. utf8 bs = None \<longrightarrow> decode_content utf8 bs = decode_latin1 bs)
   \<and> (\<forall>bs. length (decode_latin1 bs) = length bs
          \<and> map (\<lambda>c. word_of_nat (of_char c) :: 8 word) (decode_latin1 bs) = bs)"
proof (intro conjI allI impI)
  show "(download_book_text utf8 get book = None) = (get (text_url book) = TransportError)"
    by (cases "get (text_url book)") (simp_all add: download_book_text_def)
  fix bs
  show "get (text_url book) = Content bs \<Longrightarrow>
          download_book_text utf8 get book
            = Some (strip_gutenberg_headers (decode_content utf8 bs))"
    by (simp add: download_book_text_def)
  show "utf8 bs = None \<Longrightarrow> decode_content utf8 bs = decode_latin1 bs"
    by (simp add: decode_content_def)
  show "length (decode_latin1 bs) = length bs" by (simp add: decode_latin1_def)
  show "map (\<lambda>c. word_of_nat (of_char c) :: 8 word) (decode_latin1 bs) = bs"
    by (rule decode_latin1_roundtrip)
qed

theorem download_book_text_decoding_total_witness:
  "(\<lambda>u. Content [0x48, 0xE9]) (text_url 84) = Content [0x48, 0xE9]
   \<and> (\<lambda>bs. None :: string option) [0x48, 0xE9] = None
   \<and> download_book_text (\<lambda>bs. None) (\<lambda>u. Content [0x48, 0xE9]) 84 = Some [CHR 0x48, CHR 0xE9]"
proof -
  note t = download_book_text_decoding_total
    [of "\<lambda>bs. None" "\<lambda>u. Content [0x48, 0xE9]" 84]
  from t have "download_book_text (\<lambda>bs. None) (\<lambda>u. Content [0x48, 0xE9]) 84
      = Some (strip_gutenberg_headers (decode_content (\<lambda>bs. None) [0x48, 0xE9]))"
    by simp
  moreover from t have "decode_content (\<lambda>bs. None) [0x48, 0xE9] = decode_latin1 [0x48, 0xE9]"
    by simp
  moreover have "decode_latin1 [0x48, 0xE9] = [CHR 0x48, CHR 0xE9]"
    by code_simp
  moreover have "strip_gutenberg_headers [CHR 0x48, CHR 0xE9] = [CHR 0x48, CHR 0xE9]"
    by code_simp
  ultimately show ?thesis by simp
qed

section \<open>Properties of the processing limit\<close>


lemma upload_loop_process_all:
  "upload_loop step xs n0 f0 w =
     (case process_all step xs w of
        (Raised, w') \<Rightarrow> (Raised, w')
      | (Returned (n, fs), w') \<Rightarrow> (Returned (n0 + n, f0 @ fs), w'))"
proof (induction xs arbitrary: n0 f0 w)
  case Nil
  show ?case by simp
next
  case (Cons x xs)
  obtain r w1 where s: "step x w = (r, w1)" by (cases "step x w")
  show ?case
  proof (cases r)
    case Raised
    then show ?thesis using s by simp
  next
    case (Returned ok)
    obtain q w2 where p: "process_all step xs w1 = (q, w2)" by (cases "process_all step xs w1")
    show ?thesis
    proof (cases q)
      case Raised
      then show ?thesis using s Returned p Cons.IH[of _ _ w1] by simp
    next
      case (Returned nf)
      obtain n fs where nf: "nf = (n, fs)" by (cases nf)
      show ?thesis using s \<open>r = Returned ok\<close> p Returned nf Cons.IH[of _ _ w1] by simp
    qed
  qed
qed

lemma update_loop_unlimited:
  assumes "limit = None \<or> limit = Some 0"
  shows "update_loop step limit c xs n0 f0 w = upload_loop step xs n0 f0 w"
  using assms
proof (induction xs arbitrary: c n0 f0 w)
  case Nil
  show ?case by simp
next
  case (Cons x xs)
  have g: "\<not> (case limit of None \<Rightarrow> False | Some l \<Rightarrow> l \<noteq> 0 \<and> c + 1 > l)"
    using Cons.prems by auto
  obtain r w1 where s: "step x w = (r, w1)" by (cases "step x w")
  show ?case
    using g s Cons.IH[OF Cons.prems] by (cases r) (simp_all add: Let_def)
qed

lemma update_loop_limited:
  assumes "0 \<le> c" "c \<le> l" "0 < l"
  shows "update_loop step (Some l) c xs n0 f0 w = upload_loop step (take (nat (l - c)) xs) n0 f0 w"
  using assms
proof (induction xs arbitrary: c n0 f0 w)
  case Nil
  show ?case by simp
next
  case (Cons x xs)
  show ?case
  proof (cases "c + 1 > l")
    case True
    with Cons.prems have "nat (l - c) = 0" by simp
    then show ?thesis using True Cons.prems by (simp add: Let_def)
  next
    case False
    then have le: "c + 1 \<le> l" by simp
    have c0: "0 \<le> c + 1" using Cons.prems by simp
    have "nat (l - c) = Suc (nat (l - (c + 1)))" using le by linarith
    then have tk: "take (nat (l - c)) (x # xs) = x # take (nat (l - (c + 1))) xs" by simp
    obtain r w1 where s: "step x w = (r, w1)" by (cases "step x w")
    show ?thesis
      unfolding tk using False s Cons.IH[OF c0 le Cons.prems(3)]
      by (cases r) (simp_all add: Let_def)
  qed
qed

lemma process_all_no_raise:
  assumes "\<forall>x w. fst (step x w) \<noteq> Raised"
  shows "\<exists>n fs. process_all step xs w =
             (Returned (n, fs), fold (\<lambda>x w. snd (step x w)) xs w)
           \<and> n + length fs = length xs"
proof (induction xs arbitrary: w)
  case Nil
  show ?case by simp
next
  case (Cons x xs)
  obtain r w1 where s: "step x w = (r, w1)" by (cases "step x w")
  from assms have "fst (step x w) \<noteq> Raised" by simp
  with s have "r \<noteq> Raised" by simp
  then obtain ok where r: "r = Returned ok" by (cases r) auto
  from Cons.IH[of w1] obtain n fs where
    p: "process_all step xs w1 = (Returned (n, fs), fold (\<lambda>x w. snd (step x w)) xs w1)"
    and l: "n + length fs = length xs"
    by blast
  show ?case using s r p l by simp
qed

lemma upload_all_eq:
  "upload_all step (Some fs) limit w =
     (let sel = (case limit of None \<Rightarrow> fs | Some l \<Rightarrow> if l \<noteq> 0 then py_slice_to l fs else fs)
      in upload_report (process_all step sel w) (length sel))"
proof -
  have "upload_loop step xs 0 [] w =
     (case process_all step xs w of
        (Raised, w') \<Rightarrow> (Raised, w')
      | (Returned (n, fs), w') \<Rightarrow> (Returned (n, fs), w'))" for xs
    by (simp add: upload_loop_process_all split: prod.splits outcome.splits)
  then show ?thesis
    by (simp add: upload_all_def upload_report_def Let_def
        split: prod.splits outcome.splits option.splits)
qed

lemma update_all_eq_unlimited:
  "limit = None \<or> limit = Some 0 \<Longrightarrow>
   update_all step rs limit w = update_report (process_all step rs w)"
  by (simp add: update_all_def update_report_def update_loop_unlimited upload_loop_process_all
      split: prod.splits outcome.splits)

lemma update_all_eq_limited:
  "0 < l \<Longrightarrow>
   update_all step rs (Some l) w = update_report (process_all step (take (nat l) rs) w)"
  using update_loop_limited[of 0 l step rs 0 "[]" w]
  by (simp add: update_all_def update_report_def upload_loop_process_all
      split: prod.splits outcome.splits)

text \<open>
  Claim C10. A limit of 0 is no limit. \<open>upload_all\<close> with limit 0, as without a limit,
  gives every metadata file to \<open>upload_book\<close>, in order, and reports the full count;
  \<open>update_all\<close> with limit 0, as without a limit, gives every record to \<open>update_record\<close>.
  A positive limit \<open>n\<close> restricts both to the first \<open>n\<close> items. In particular, when the step
  never raises, the call with limit 0 leaves the world that the steps on all the items
  produce one after the other, and every item is counted as a success or listed as a
  failure.
\<close>

theorem limit_zero_is_no_limit:
  "upload_all ub (Some fs) (Some 0) w = upload_report (process_all ub fs w) (length fs)
   \<and> upload_all ub (Some fs) None w = upload_report (process_all ub fs w) (length fs)
   \<and> update_all ur rs (Some 0) v = update_report (process_all ur rs v)
   \<and> update_all ur rs None v = update_report (process_all ur rs v)
   \<and> (0 < n \<longrightarrow>
        upload_all ub (Some fs) (Some n) w =
          upload_report (process_all ub (take (nat n) fs) w) (length (take (nat n) fs))
        \<and> update_all ur rs (Some n) v = update_report (process_all ur (take (nat n) rs) v))
   \<and> ((\<forall>x u. fst (ub x u) \<noteq> Raised) \<longrightarrow>
        (\<exists>s. upload_all ub (Some fs) (Some 0) w =
               (Returned (Some s), fold (\<lambda>x u. snd (ub x u)) fs w)
             \<and> total s = length fs \<and> successful s + length (failed s) = length fs))
   \<and> ((\<forall>x u. fst (ur x u) \<noteq> Raised) \<longrightarrow>
        (\<exists>s. update_all ur rs (Some 0) v = (Returned s, fold (\<lambda>x u. snd (ur x u)) rs v)
             \<and> upd_successful s + length (upd_failed s) = length rs))"
proof (intro conjI impI)
  show u0: "upload_all ub (Some fs) (Some 0) w = upload_report (process_all ub fs w) (length fs)"
    by (simp add: upload_all_eq)
  show "upload_all ub (Some fs) None w = upload_report (process_all ub fs w) (length fs)"
    by (simp add: upload_all_eq)
  show d0: "update_all ur rs (Some 0) v = update_report (process_all ur rs v)"
    by (simp add: update_all_eq_unlimited)
  show "update_all ur rs None v = update_report (process_all ur rs v)"
    by (simp add: update_all_eq_unlimited)
  {
    assume n: "0 < n"
    then show "upload_all ub (Some fs) (Some n) w =
          upload_report (process_all ub (take (nat n) fs) w) (length (take (nat n) fs))"
      by (simp add: upload_all_eq py_slice_to_def Let_def)
    from n show "update_all ur rs (Some n) v = update_report (process_all ur (take (nat n) rs) v)"
      by (rule update_all_eq_limited)
  }
  {
    assume a: "\<forall>x u. fst (ub x u) \<noteq> Raised"
    from process_all_no_raise[OF a, of fs w] obtain k ff where
      p: "process_all ub fs w = (Returned (k, ff), fold (\<lambda>x u. snd (ub x u)) fs w)"
      and l: "k + length ff = length fs"
      by blast
    show "\<exists>s. upload_all ub (Some fs) (Some 0) w =
               (Returned (Some s), fold (\<lambda>x u. snd (ub x u)) fs w)
             \<and> total s = length fs \<and> successful s + length (failed s) = length fs"
      unfolding u0 p using l by (simp add: upload_report_def)
  }
  {
    assume a: "\<forall>x u. fst (ur x u) \<noteq> Raised"
    from process_all_no_raise[OF a, of rs v] obtain k ff where
      p: "process_all ur rs v = (Returned (k, ff), fold (\<lambda>x u. snd (ur x u)) rs v)"
      and l: "k + length ff = length rs"
      by blast
    show "\<exists>s. update_all ur rs (Some 0) v = (Returned s, fold (\<lambda>x u. snd (ur x u)) rs v)
             \<and> upd_successful s + length (upd_failed s) = length rs"
      unfolding d0 p using l by (simp add: update_report_def)
  }
qed


lemma demo_process_all:
  "process_all demo_step [''a'', ''b'', ''c''] [] = (Returned (2, [''b'']), [''a'', ''b'', ''c''])"
  "process_all demo_step [''a'', ''b''] [] = (Returned (1, [''b'']), [''a'', ''b''])"
  by (simp_all add: demo_step_def)

theorem limit_zero_is_no_limit_witness:
  "(0::int) < 2
   \<and> upload_all demo_step (Some [''a'', ''b'', ''c'']) (Some 0) [] =
       (Returned (Some \<lparr>total = 3, successful = 2, failed = [''b'']\<rparr>), [''a'', ''b'', ''c''])
   \<and> upload_all demo_step (Some [''a'', ''b'', ''c'']) (Some 2) [] =
       (Returned (Some \<lparr>total = 2, successful = 1, failed = [''b'']\<rparr>), [''a'', ''b''])
   \<and> update_all demo_step [''a'', ''b'', ''c''] (Some 0) [] =
       (Returned \<lparr>upd_successful = 2, upd_failed = [''b'']\<rparr>, [''a'', ''b'', ''c''])
   \<and> update_all demo_step [''a'', ''b'', ''c''] (Some 2) [] =
       (Returned \<lparr>upd_successful = 1, upd_failed = [''b'']\<rparr>, [''a'', ''b''])"
proof -
  have p: "(0::int) < 2" by simp
  have tk: "take (nat 2) [''a'', ''b'', ''c''] = [''a'', ''b'']" by simp
  note t = limit_zero_is_no_limit [of demo_step "[''a'', ''b'', ''c'']" "[]"
      demo_step "[''a'', ''b'', ''c'']" "[]" 2]
  from t have a: "upload_all demo_step (Some [''a'', ''b'', ''c'']) (Some 0) [] =
      upload_report (process_all demo_step [''a'', ''b'', ''c''] []) (length [''a'', ''b'', ''c''])"
    by (rule conjunct1)
  from t have b: "update_all demo_step [''a'', ''b'', ''c''] (Some 0) [] =
      update_report (process_all demo_step [''a'', ''b'', ''c''] [])"
    by (rule conjunct1[OF conjunct2[OF conjunct2]])
  from t have "0 < (2::int) \<longrightarrow>
        upload_all demo_step (Some [''a'', ''b'', ''c'']) (Some 2) [] =
          upload_report (process_all demo_step (take (nat 2) [''a'', ''b'', ''c'']) [])
            (length (take (nat 2) [''a'', ''b'', ''c'']))
        \<and> update_all demo_step [''a'', ''b'', ''c''] (Some 2) [] =
            update_report (process_all demo_step (take (nat 2) [''a'', ''b'', ''c'']) [])"
    by (rule conjunct1[OF conjunct2[OF conjunct2[OF conjunct2[OF conjunct2]]]])
  from this p have c: "upload_all demo_step (Some [''a'', ''b'', ''c'']) (Some 2) [] =
          upload_report (process_all demo_step (take (nat 2) [''a'', ''b'', ''c'']) [])
            (length (take (nat 2) [''a'', ''b'', ''c'']))
        \<and> update_all demo_step [''a'', ''b'', ''c''] (Some 2) [] =
            update_report (process_all demo_step (take (nat 2) [''a'', ''b'', ''c'']) [])"
    by (rule mp)
  have a': "upload_all demo_step (Some [''a'', ''b'', ''c'']) (Some 0) [] =
       (Returned (Some \<lparr>total = 3, successful = 2, failed = [''b'']\<rparr>), [''a'', ''b'', ''c''])"
    unfolding a demo_process_all by (simp add: upload_report_def)
  have b': "update_all demo_step [''a'', ''b'', ''c''] (Some 0) [] =
       (Returned \<lparr>upd_successful = 2, upd_failed = [''b'']\<rparr>, [''a'', ''b'', ''c''])"
    unfolding b demo_process_all by (simp add: update_report_def)
  have c1: "upload_all demo_step (Some [''a'', ''b'', ''c'']) (Some 2) [] =
       (Returned (Some \<lparr>total = 2, successful = 1, failed = [''b'']\<rparr>), [''a'', ''b''])"
    unfolding c[THEN conjunct1] tk demo_process_all by (simp add: upload_report_def)
  have c2: "update_all demo_step [''a'', ''b'', ''c''] (Some 2) [] =
       (Returned \<lparr>upd_successful = 1, upd_failed = [''b'']\<rparr>, [''a'', ''b''])"
    unfolding c[THEN conjunct2] tk demo_process_all by (simp add: update_report_def)
  from p a' c1 b' c2 show ?thesis by (intro conjI)
qed

end
